theory Spec2Isabelle
  imports Main
begin

section \<open>JavaScript values and strings\<close>

text \<open>
  Tool arguments, tool results and thrown values are JavaScript values: \<^verbatim>\<open>undefined\<close>
  and JSON data. Numbers are modelled as integers of magnitude at most \<open>2\<^sup>5\<^sup>3\<close>, which
  JavaScript holds exactly and prints in decimal digits; objects as association lists of
  their own properties in key order. No value is a function.
\<close>

datatype jsval =
    Undefined
  | Null
  | Bool bool
  | Num int
  | Str string
  | Arr "jsval list"
  | Obj "(string \<times> jsval) list"

text \<open>Exceptions that leave a function of the repository (a rejected promise).\<close>

datatype exn =
    TypeError
  | GatewayFault string
  | Uncaught jsval

text \<open>What a call of a tool function settles to: it returns, or it throws/rejects.\<close>

datatype settled =
    Returns jsval
  | Throws jsval

text \<open>\<^verbatim>\<open>new Error(msg)\<close>: an object whose \<^verbatim>\<open>message\<close> property is the text.\<close>

definition newError :: "string \<Rightarrow> jsval" where
  "newError msg = Obj [(''message'', Str msg)]"

text \<open>
  Reading a property of a value that is neither \<^verbatim>\<open>null\<close> nor \<^verbatim>\<open>undefined\<close>: an
  object yields the property or \<^verbatim>\<open>undefined\<close>; no other value has one of the keys
  read in this development (\<^verbatim>\<open>message\<close>, \<^verbatim>\<open>worker\<close>, \<^verbatim>\<open>task\<close>).
\<close>

fun getProp :: "jsval \<Rightarrow> string \<Rightarrow> jsval" where
  "getProp (Obj kvs) k = (case map_of kvs k of None \<Rightarrow> Undefined | Some v \<Rightarrow> v)"
| "getProp v k = Undefined"

text \<open>
  \<^verbatim>\<open>err.message\<close>: reading a property of \<^verbatim>\<open>null\<close> or \<^verbatim>\<open>undefined\<close> throws a
  TypeError.
\<close>

definition getMessage :: "jsval \<Rightarrow> exn + jsval" where
  "getMessage err =
     (if err = Undefined \<or> err = Null then Inl TypeError else Inr (getProp err ''message''))"

text \<open>Truthiness of a value, as \<^verbatim>\<open>cond ? a : b\<close> tests it.\<close>

fun truthy :: "jsval \<Rightarrow> bool" where
  "truthy Undefined = False"
| "truthy Null = False"
| "truthy (Bool b) = b"
| "truthy (Num n) = (n \<noteq> 0)"
| "truthy (Str s) = (s \<noteq> [])"
| "truthy (Arr xs) = True"
| "truthy (Obj kvs) = True"

text \<open>Decimal rendering of a number inside a template literal.\<close>

fun showNat :: "nat \<Rightarrow> string" where
  "showNat n =
     (if n < 10 then [''0123456789'' ! n]
      else showNat (n div 10) @ [''0123456789'' ! (n mod 10)])"

definition showInt :: "int \<Rightarrow> string" where
  "showInt i = (if i < 0 then ''-'' @ showNat (nat (- i)) else showNat (nat i))"

text \<open>\<^verbatim>\<open>xs.join(sep)\<close> on an array of strings.\<close>

fun join :: "string \<Rightarrow> string list \<Rightarrow> string" where
  "join sep [] = []"
| "join sep [x] = x"
| "join sep (x # y # ys) = x @ sep @ join sep (y # ys)"

text \<open>\<^verbatim>\<open>s.includes(t)\<close>: \<open>t\<close> occurs in \<open>s\<close> as a contiguous substring.\<close>

fun startsWith :: "string \<Rightarrow> string \<Rightarrow> bool" where
  "startsWith s [] = True"
| "startsWith [] (c # t) = False"
| "startsWith (d # s) (c # t) = (d = c \<and> startsWith s t)"

fun "includes" :: "string \<Rightarrow> string \<Rightarrow> bool" where
  "includes [] t = (t = [])"
| "includes (c # s) t = (startsWith (c # s) t \<or> includes s t)"

text \<open>All values of a list of outcomes, or the first failure in list order.\<close>

fun collect :: "(exn + 'a) list \<Rightarrow> exn + 'a list" where
  "collect [] = Inr []"
| "collect (Inl e # rs) = Inl e"
| "collect (Inr v # rs) = (case collect rs of Inl e \<Rightarrow> Inl e | Inr vs \<Rightarrow> Inr (v # vs))"

text \<open>
  String conversion of a value, as a template literal or a property key performs it. An
  object is converted by its \<^verbatim>\<open>toString\<close> method: the inherited one yields
  \<^verbatim>\<open>[object Object]\<close>; an own property \<^verbatim>\<open>toString\<close> hides it and, being no function,
  leaves only \<^verbatim>\<open>valueOf\<close>, which yields no primitive, so the conversion throws a
  TypeError. An array joins the conversions of its elements with commas, \<^verbatim>\<open>null\<close> and
  \<^verbatim>\<open>undefined\<close> elements giving the empty string.
\<close>

fun toString :: "jsval \<Rightarrow> exn + string" where
  "toString Undefined = Inr ''undefined''"
| "toString Null = Inr ''null''"
| "toString (Bool b) = Inr (if b then ''true'' else ''false'')"
| "toString (Num n) = Inr (showInt n)"
| "toString (Str s) = Inr s"
| "toString (Arr xs) =
     (case collect (map (\<lambda>x. case x of Undefined \<Rightarrow> Inr [] | Null \<Rightarrow> Inr [] | _ \<Rightarrow> toString x) xs) of
        Inl e \<Rightarrow> Inl e
      | Inr ss \<Rightarrow> Inr (join '','' ss))"
| "toString (Obj kvs) =
     (if ''toString'' \<in> set (map fst kvs) then Inl TypeError else Inr ''[object Object]'')"

section \<open>The model gateway and the chat session\<close>

text \<open>
  A part of a model response carries optional text and an optional function call
  (\<^verbatim>\<open>p.text\<close>, \<^verbatim>\<open>p.functionCall\<close>).
\<close>

datatype functionCall = FunctionCall string jsval

record part =
  "text" :: "string option"
  functionCall :: "functionCall option"

text \<open>\<^verbatim>\<open>{ functionResponse: { name, response } }\<close>\<close>

datatype functionResponse = FunctionResponse string jsval

text \<open>One entry of the conversation held by the chat session.\<close>

datatype content =
    UserText string
  | FunctionResponses "functionResponse list"
  | ModelParts "part list"

text \<open>The configuration given to \<^verbatim>\<open>genAI.getGenerativeModel\<close>.\<close>

record generativeModel =
  model :: string
  systemInstruction :: string
  tools :: "jsval list option"

text \<open>
  The hosted model is outside the repository. It is a parameter: given its own state
  \<open>'g\<close>, the model configuration and the conversation up to and including the message
  being sent, it answers with the parts of the first candidate, or fails (network, auth,
  quota). Every answer is taken to have a first candidate with a list of parts.
\<close>

type_synonym 'g gateway =
  "'g \<Rightarrow> generativeModel \<Rightarrow> content list \<Rightarrow> (exn + part list) \<times> 'g"

section \<open>BaseAgent\<close>

text \<open>
  The fields of a \<^verbatim>\<open>BaseAgent\<close>. The object \<^verbatim>\<open>this.toolFns\<close> is modelled by two
  lists: \<open>toolFns\<close>, its own properties in key order, and \<open>inheritedFns\<close>, the members
  it inherits from its prototype (for an object literal those of \<^verbatim>\<open>Object.prototype\<close>,
  such as \<^verbatim>\<open>constructor\<close> and \<^verbatim>\<open>toString\<close>), which a lookup also finds. A member is
  modelled by what looking it up and calling it with the argument settles to: a member
  that is no function is one whose call throws, and a falsy member one that throws the
  \<^verbatim>\<open>Unknown tool\<close> error. The counters and the step budget are integers in the range
  JavaScript holds exactly. \<open>chat\<close> is the history of the chat session. Of the log
  lines only the string conversions that can throw are modelled.
\<close>

record agent =
  name :: string
  toolFns :: "(string \<times> (jsval \<Rightarrow> settled)) list"
  inheritedFns :: "(string \<times> (jsval \<Rightarrow> settled)) list"
  maxSteps :: int
  verbose :: bool
  stepCount :: int
  totalCalls :: int
  geminiModel :: generativeModel
  chat :: "content list"

text \<open>
  The constructor's argument; the optional fields have defaults. \<open>cfgInherited\<close> holds
  the members the tool map (the object given, or the default \<^verbatim>\<open>{}\<close>) inherits.
\<close>

record config =
  cfgName :: string
  cfgSystemPrompt :: string
  cfgTools :: "jsval list option"
  cfgToolFns :: "(string \<times> (jsval \<Rightarrow> settled)) list option"
  cfgInherited :: "(string \<times> (jsval \<Rightarrow> settled)) list"
  cfgModel :: "string option"
  cfgMaxSteps :: "int option"
  cfgVerbose :: "bool option"

text \<open>\<^verbatim>\<open>geminiModel.startChat()\<close>: a session with an empty history.\<close>

definition startChat :: "content list" where
  "startChat = []"

definition newBaseAgent :: "config \<Rightarrow> agent" where
  "newBaseAgent c =
     (let ts = (case cfgTools c of None \<Rightarrow> [] | Some t \<Rightarrow> t) in
      \<lparr> name = cfgName c,
        toolFns = (case cfgToolFns c of None \<Rightarrow> [] | Some f \<Rightarrow> f),
        inheritedFns = cfgInherited c,
        maxSteps = (case cfgMaxSteps c of None \<Rightarrow> 20 | Some m \<Rightarrow> m),
        verbose = (case cfgVerbose c of None \<Rightarrow> True | Some v \<Rightarrow> v),
        stepCount = 0,
        totalCalls = 0,
        geminiModel =
          \<lparr> model = (case cfgModel c of None \<Rightarrow> ''gemini-1.5-flash'' | Some m \<Rightarrow> m),
            systemInstruction = cfgSystemPrompt c,
            tools = (if length ts > 0 then Some ts else None) \<rparr>,
        chat = startChat \<rparr>)"

text \<open>
  \<^verbatim>\<open>chat.sendMessage(msg)\<close> on a session of the SDK: the session sends its history
  followed by the new message; on an answer it appends the message and the model's turn
  to the history; on a fault the history stays as it was and the fault propagates.
\<close>

definition chatSend ::
  "'g gateway \<Rightarrow> generativeModel \<Rightarrow> content list \<Rightarrow> content \<Rightarrow> 'g
     \<Rightarrow> (exn + part list) \<times> content list \<times> 'g" where
  "chatSend gw m history msg w =
     (case gw w m (history @ [msg]) of
        (Inl e, w') \<Rightarrow> (Inl e, history, w')
      | (Inr parts, w') \<Rightarrow> (Inr parts, history @ [msg, ModelParts parts], w'))"

text \<open>\<^verbatim>\<open>this.chat.sendMessage(msg)\<close> inside the agent.\<close>

definition sendMessage ::
  "'g gateway \<Rightarrow> agent \<Rightarrow> content \<Rightarrow> 'g \<Rightarrow> (exn + part list) \<times> agent \<times> 'g" where
  "sendMessage gw a msg w =
     (case chatSend gw (geminiModel a) (chat a) msg w of
        (r, h, w') \<Rightarrow> (r, a\<lparr>chat := h\<rparr>, w'))"

text \<open>
  The body of the \<^verbatim>\<open>try\<close> and its \<^verbatim>\<open>catch\<close> for one call. In the \<^verbatim>\<open>try\<close>:
  \<^verbatim>\<open>this.toolFns[name]\<close> finds an own property or else an inherited member; a name
  that finds nothing throws the \<^verbatim>\<open>Unknown tool\<close> error; the function found is called
  and awaited. In the \<^verbatim>\<open>catch\<close>: the log line converts \<^verbatim>\<open>err.message\<close> to a string,
  then the payload is built from \<^verbatim>\<open>err.message\<close>. Reading \<^verbatim>\<open>err.message\<close> and
  converting it happen inside the \<^verbatim>\<open>catch\<close> block, so a failure there is not caught.
\<close>

definition unknownToolMessage :: "agent \<Rightarrow> string \<Rightarrow> string" where
  "unknownToolMessage a nm =
     ''Unknown tool: \"'' @ nm @ ''\". Available: '' @ join '', '' (map fst (toolFns a))"

definition invoke :: "agent \<Rightarrow> string \<Rightarrow> jsval \<Rightarrow> settled" where
  "invoke a nm args =
     (case map_of (toolFns a @ inheritedFns a) nm of
        None \<Rightarrow> Throws (newError (unknownToolMessage a nm))
      | Some fn \<Rightarrow> fn args)"

definition callTool :: "agent \<Rightarrow> string \<Rightarrow> jsval \<Rightarrow> exn + functionResponse" where
  "callTool a nm args =
     (case invoke a nm args of
        Returns result \<Rightarrow> Inr (FunctionResponse nm result)
      | Throws err \<Rightarrow>
          (case getMessage err of
             Inl e \<Rightarrow> Inl e
           | Inr m \<Rightarrow>
               (case toString m of
                  Inl e \<Rightarrow> Inl e
                | Inr logged \<Rightarrow>
                    Inr (FunctionResponse nm (Obj [(''error'', m), (''tool'', Str nm)])))))"

text \<open>
  One iteration of \<^verbatim>\<open>for (const p of calls)\<close> without the counter: destructure
  \<^verbatim>\<open>p.functionCall\<close> (a TypeError if the part has none) and run the call.
\<close>

definition callPart :: "agent \<Rightarrow> part \<Rightarrow> exn + functionResponse" where
  "callPart a p =
     (case functionCall p of
        None \<Rightarrow> Inl TypeError
      | Some (FunctionCall nm args) \<Rightarrow> callTool a nm args)"

text \<open>
  The \<^verbatim>\<open>for (const p of calls)\<close> loop: each call is counted in \<open>totalCalls\<close> and
  awaited before the next one starts; its response is pushed onto \<open>toolResults\<close>.
\<close>

fun execCalls ::
  "agent \<Rightarrow> part list \<Rightarrow> functionResponse list \<Rightarrow> (exn + functionResponse list) \<times> agent" where
  "execCalls a [] toolResults = (Inr toolResults, a)"
| "execCalls a (p # ps) toolResults =
     (case functionCall p of
        None \<Rightarrow> (Inl TypeError, a)
      | Some fc \<Rightarrow>
          (let a' = a\<lparr>totalCalls := totalCalls a + 1\<rparr> in
           case callPart a' p of
             Inl e \<Rightarrow> (Inl e, a')
           | Inr r \<Rightarrow> execCalls a' ps (toolResults @ [r])))"

text \<open>The result object of \<^verbatim>\<open>run\<close> (the wall-clock field \<^verbatim>\<open>elapsed\<close> is left out).\<close>

datatype runResult =
    success: Success (response: string) (steps: int)
  | Failure (error: string) (steps: int)

text \<open>\<^verbatim>\<open>parts.filter((p) => p.functionCall)\<close>\<close>

definition callsOf :: "part list \<Rightarrow> part list" where
  "callsOf parts = filter (\<lambda>p. functionCall p \<noteq> None) parts"

text \<open>\<^verbatim>\<open>parts.map((p) => p.text || "").join("")\<close>\<close>

definition textOf :: "part list \<Rightarrow> string" where
  "textOf parts = concat (map (\<lambda>p. case text p of None \<Rightarrow> [] | Some t \<Rightarrow> t) parts)"

text \<open>
  A batch changes only \<open>totalCalls\<close>, and sending a message only \<open>chat\<close>; the
  termination of the loop rests on the step counter and the budget staying as they are.
\<close>

lemma execCalls_frame:
  "execCalls a ps rs = (r, a') \<Longrightarrow>
     stepCount a' = stepCount a \<and> maxSteps a' = maxSteps a \<and> toolFns a' = toolFns a
     \<and> inheritedFns a' = inheritedFns a
     \<and> geminiModel a' = geminiModel a \<and> chat a' = chat a \<and> name a' = name a
     \<and> verbose a' = verbose a"
proof (induction a ps rs arbitrary: r a' rule: execCalls.induct)
  case (1 a toolResults)
  then show ?case by simp
next
  case (2 a p ps toolResults)
  show ?case
  proof (cases "functionCall p")
    case None
    with "2.prems" show ?thesis by auto
  next
    case (Some fc)
    let ?a = "a\<lparr>totalCalls := totalCalls a + 1\<rparr>"
    show ?thesis
    proof (cases "callPart ?a p")
      case (Inl e)
      with "2.prems" Some show ?thesis by (auto simp: Let_def)
    next
      case (Inr fr)
      with "2.prems" Some have "execCalls ?a ps (toolResults @ [fr]) = (r, a')"
        by (simp add: Let_def)
      from "2.IH"[OF Some refl Inr this] show ?thesis by simp
    qed
  qed
qed

lemma sendMessage_frame:
  "sendMessage gw a msg w = (r, a', w') \<Longrightarrow>
     stepCount a' = stepCount a \<and> maxSteps a' = maxSteps a \<and> toolFns a' = toolFns a
     \<and> inheritedFns a' = inheritedFns a
     \<and> geminiModel a' = geminiModel a \<and> totalCalls a' = totalCalls a \<and> name a' = name a
     \<and> verbose a' = verbose a"
  by (auto simp: sendMessage_def split: prod.splits)

function loop ::
  "'g gateway \<Rightarrow> agent \<Rightarrow> part list \<Rightarrow> 'g \<Rightarrow> (exn + runResult) \<times> agent \<times> 'g" where
  "loop gw a parts w =
     (if stepCount a < maxSteps a then
        (let a1 = a\<lparr>stepCount := stepCount a + 1\<rparr>;
             calls = callsOf parts
         in if calls = [] then
              (Inr (Success (textOf parts) (stepCount a1)), a1, w)
            else
              (case execCalls a1 calls [] of
                 (Inl e, a2) \<Rightarrow> (Inl e, a2, w)
               | (Inr toolResults, a2) \<Rightarrow>
                   (case sendMessage gw a2 (FunctionResponses toolResults) w of
                      (Inl e, a3, w') \<Rightarrow> (Inl e, a3, w')
                    | (Inr parts', a3, w') \<Rightarrow> loop gw a3 parts' w')))
      else
        (Inr (Failure (''Max steps ('' @ showInt (maxSteps a) @ '') reached'') (stepCount a)),
         a, w))"
  by pat_completeness auto
termination
proof (relation "measure (\<lambda>(gw, a, parts, w). nat (maxSteps a - stepCount a))", goal_cases)
  case 1
  show ?case by simp
next
  case (2 gw a parts w x xa xb y b xc ya ba xd yb)
  from 2 have e: "execCalls (a\<lparr>stepCount := stepCount a + 1\<rparr>) (callsOf parts) [] = (Inr b, y)"
    by simp
  from 2 have s: "sendMessage gw y (FunctionResponses b) w = (Inr ba, xd, yb)"
    by (metis prod.collapse)
  from execCalls_frame[OF e] sendMessage_frame[OF s] 2(1) show ?case by simp
qed

text \<open>
  \<^verbatim>\<open>typeof context === "object" ? JSON.stringify(context, null, 2) : context\<close> inside the
  template literal. \<open>stringify\<close> stands for \<^verbatim>\<open>JSON.stringify(context, null, 2)\<close>; a
  value that is no object is a primitive, whose conversion cannot throw.
\<close>

fun contextText :: "(jsval \<Rightarrow> string) \<Rightarrow> jsval \<Rightarrow> string" where
  "contextText stringify Undefined = ''undefined''"
| "contextText stringify Null = stringify Null"
| "contextText stringify (Bool b) = (if b then ''true'' else ''false'')"
| "contextText stringify (Num n) = showInt n"
| "contextText stringify (Str s) = s"
| "contextText stringify (Arr xs) = stringify (Arr xs)"
| "contextText stringify (Obj kvs) = stringify (Obj kvs)"

text \<open>
  The first message of \<^verbatim>\<open>run\<close>: the user message, followed by the context block when a
  truthy context is given.
\<close>

definition fullMessage :: "(jsval \<Rightarrow> string) \<Rightarrow> string \<Rightarrow> jsval \<Rightarrow> string" where
  "fullMessage stringify userMessage context =
     (if truthy context then
        userMessage @ ''\<newline>\<newline>[Context]:\<newline>'' @ contextText stringify context
      else userMessage)"

text \<open>\<^verbatim>\<open>async run(userMessage, context = null)\<close>\<close>

definition run ::
  "'g gateway \<Rightarrow> (jsval \<Rightarrow> string) \<Rightarrow> agent \<Rightarrow> string \<Rightarrow> jsval \<Rightarrow> 'g
     \<Rightarrow> (exn + runResult) \<times> agent \<times> 'g" where
  "run gw stringify a userMessage context w =
     (let a0 = a\<lparr>stepCount := 0\<rparr> in
      case sendMessage gw a0 (UserText (fullMessage stringify userMessage context)) w of
        (Inl e, a1, w') \<Rightarrow> (Inl e, a1, w')
      | (Inr parts, a1, w') \<Rightarrow> loop gw a1 parts w')"

text \<open>\<^verbatim>\<open>reset()\<close>: a new chat session and a zeroed step counter.\<close>

definition reset :: "agent \<Rightarrow> agent" where
  "reset a = a\<lparr>chat := startChat, stepCount := 0\<rparr>"

text \<open>\<^verbatim>\<open>getStats()\<close>: \<^verbatim>\<open>{ totalCalls, lastSteps }\<close>.\<close>

record stats =
  statsTotalCalls :: int
  lastSteps :: int

definition getStats :: "agent \<Rightarrow> stats" where
  "getStats a = \<lparr> statsTotalCalls = totalCalls a, lastSteps = stepCount a \<rparr>"

section \<open>Single-shot generation\<close>

text \<open>
  \<^verbatim>\<open>model.generateContent(prompt)\<close> followed by \<^verbatim>\<open>response.text()\<close>: one request
  holding the prompt as the only turn; the answer is the concatenated text of the parts.
\<close>

definition generateContent ::
  "'g gateway \<Rightarrow> generativeModel \<Rightarrow> string \<Rightarrow> 'g \<Rightarrow> (exn + string) \<times> 'g" where
  "generateContent gw m prompt w =
     (case gw w m [UserText prompt] of
        (Inl e, w') \<Rightarrow> (Inl e, w')
      | (Inr parts, w') \<Rightarrow> (Inr (textOf parts), w'))"

section \<open>Orchestrator and workers\<close>

text \<open>\<^verbatim>\<open>callWorker(workerName, task, systemPrompt)\<close>; the name is only logged.\<close>

definition callWorker ::
  "'g gateway \<Rightarrow> string \<Rightarrow> string \<Rightarrow> string \<Rightarrow> 'g \<Rightarrow> (exn + string) \<times> 'g" where
  "callWorker gw workerName task systemPrompt w =
     generateContent gw
       \<lparr> model = ''gemini-1.5-flash'', systemInstruction = systemPrompt, tools = None \<rparr>
       task w"

text \<open>
  The \<^verbatim>\<open>workers\<close> table: each key maps to the display name and the system prompt its
  function hands to \<^verbatim>\<open>callWorker\<close>. Non-ASCII characters are their UTF-8 bytes.
\<close>

definition workers :: "(string \<times> string \<times> string) list" where
  "workers =
    [(''code_agent'', ''Code Agent'',
     ''You are a senior software engineer specializing in Node.js, JavaScript, and modern web technologies.\<newline>'' @
       ''       Write clean, production-quality code with:\<newline>'' @
       ''       - Clear comments explaining the why, not the what\<newline>'' @
       ''       - Proper error handling\<newline>'' @
       ''       - Example usage at the bottom\<newline>'' @
       ''       - Any important notes or caveats\<newline>'' @
       ''       Format: code block first, then brief explanation''),
     (''analysis_agent'', ''Analysis Agent'',
     ''You are a senior data analyst and business intelligence expert.\<newline>'' @
       ''       For analysis tasks:\<newline>'' @
       ''       - Identify key patterns and insights\<newline>'' @
       ''       - Use specific numbers and percentages when possible\<newline>'' @
       ''       - Structure findings as: Summary '' @
       [CHR 0xE2, CHR 0x86, CHR 0x92] @
       '' Key Findings '' @
       [CHR 0xE2, CHR 0x86, CHR 0x92] @
       '' Recommendations\<newline>'' @
       ''       - Flag any assumptions or data limitations\<newline>'' @
       ''       Be precise and data-driven.''),
     (''writing_agent'', ''Writing Agent'',
     ''You are a senior technical writer and content strategist.\<newline>'' @
       ''       Write content that is:\<newline>'' @
       ''       - Clear and jargon-free (unless technical audience specified)\<newline>'' @
       ''       - Well-structured with logical flow\<newline>'' @
       ''       - Engaging without being fluffy\<newline>'' @
       ''       - Appropriately concise\<newline>'' @
       ''       Match the tone to the audience (technical, business, consumer).''),
     (''math_agent'', ''Math Agent'',
     ''You are an expert mathematician and statistician.\<newline>'' @
       ''       For all calculations:\<newline>'' @
       ''       - Show every step clearly\<newline>'' @
       ''       - Explain the formula/method used\<newline>'' @
       ''       - Verify the result with a sanity check\<newline>'' @
       ''       - Present results with appropriate precision\<newline>'' @
       ''       - Flag any edge cases or assumptions''),
     (''security_agent'', ''Security Agent'',
     ''You are a senior cybersecurity expert and ethical hacker.\<newline>'' @
       ''       For security reviews:\<newline>'' @
       ''       - List vulnerabilities by severity (Critical/High/Medium/Low)\<newline>'' @
       ''       - Explain why each is a risk\<newline>'' @
       ''       - Provide specific fix recommendations\<newline>'' @
       ''       - Reference OWASP or CVEs where relevant\<newline>'' @
       ''       Be thorough and practical.''),
     (''ux_agent'', ''UX Agent'',
     ''You are a senior UX designer and product strategist.\<newline>'' @
       ''       Focus on:\<newline>'' @
       ''       - User needs and pain points\<newline>'' @
       ''       - Usability best practices\<newline>'' @
       ''       - Accessibility considerations\<newline>'' @
       ''       - Concrete actionable improvements\<newline>'' @
       ''       Think from the user's perspective first.'')]"

text \<open>The single tool declared to the orchestrator's model, \<^verbatim>\<open>call_worker\<close>.\<close>

definition callWorkerDeclaration :: jsval where
  "callWorkerDeclaration =
     Obj [(''name'', Str ''call_worker''),
          (''description'', Str ''Delegate a specific subtask to a specialized worker agent. Call multiple workers simultaneously for parallel execution.''),
          (''parameters'',
            Obj [(''type'', Str ''OBJECT''),
                 (''properties'',
                   Obj [(''worker'',
                          Obj [(''type'', Str ''STRING''),
                               (''enum'', Arr [Str ''code_agent'', Str ''analysis_agent'',
                                  Str ''writing_agent'', Str ''math_agent'',
                                  Str ''security_agent'', Str ''ux_agent'']),
                               (''description'', Str ''Which specialized agent to use for this subtask'')]),
                        (''task'',
                          Obj [(''type'', Str ''STRING''),
                               (''description'', Str ''Detailed description of the specific task for this worker. Be specific and comprehensive.'')])]),
                 (''required'', Arr [Str ''worker'', Str ''task''])])]"

definition orchestratorModel :: generativeModel where
  "orchestratorModel =
     \<lparr> model = ''gemini-1.5-flash'',
       systemInstruction =
     ''\<newline>'' @
         ''        You are an expert orchestrator AI that breaks down complex tasks and delegates to specialists.\<newline>'' @
         ''        \<newline>'' @
         ''        Available specialists:\<newline>'' @
         ''        - code_agent: Writing code, debugging, architecture, algorithms\<newline>'' @
         ''        - analysis_agent: Data analysis, requirements analysis, pattern finding, research synthesis\<newline>'' @
         ''        - writing_agent: Documentation, articles, emails, user-facing content\<newline>'' @
         ''        - math_agent: Calculations, statistics, formulas, financial modeling\<newline>'' @
         ''        - security_agent: Security reviews, vulnerability analysis, best practices\<newline>'' @
         ''        - ux_agent: User experience design, accessibility, interface improvements\<newline>'' @
         ''        \<newline>'' @
         ''        Strategy:\<newline>'' @
         ''        1. Analyze the user request carefully\<newline>'' @
         ''        2. Break it into distinct subtasks\<newline>'' @
         ''        3. Match each subtask to the RIGHT specialist\<newline>'' @
         ''        4. Call multiple workers IN PARALLEL when tasks are independent (most of the time)\<newline>'' @
         ''        5. Combine all results into a cohesive, well-organized final answer\<newline>'' @
         ''        \<newline>'' @
         ''        Important: ALWAYS delegate to workers '' @
         [CHR 0xE2, CHR 0x80, CHR 0x94] @
         '' don't answer directly yourself.\<newline>'' @
         ''        Call multiple workers simultaneously to save time.\<newline>'' @
         ''      '',
       tools = Some [callWorkerDeclaration] \<rparr>"

text \<open>
  The \<^verbatim>\<open>async (p) => { ... }\<close> given to \<^verbatim>\<open>calls.map\<close>, run for one part: what its
  promise settles to. Destructuring \<^verbatim>\<open>p.functionCall.args\<close> throws on a missing function
  call and on \<^verbatim>\<open>null\<close>/\<^verbatim>\<open>undefined\<close> arguments. The log line converts \<^verbatim>\<open>worker\<close>
  to a string, which can throw, and then calls \<^verbatim>\<open>task.substring\<close>, which throws unless
  the task is a string. \<^verbatim>\<open>workers[worker]\<close> looks the string form of \<^verbatim>\<open>worker\<close> up
  among the six workers and then among the members the object \<^verbatim>\<open>workers\<close> inherits
  from its prototype; \<open>inherited\<close> lists these, each as what calling it with the task
  settles to (a member that is no function is one whose call throws). A key that finds
  nothing yields the \<^verbatim>\<open>Unknown worker\<close> payload. Nothing is caught: a throw of the
  function found rejects the promise. The request's own name is not looked at.
\<close>

definition dispatch ::
  "'g gateway \<Rightarrow> (string \<times> (jsval \<Rightarrow> settled)) list \<Rightarrow> part \<Rightarrow> 'g
     \<Rightarrow> (exn + functionResponse) \<times> 'g" where
  "dispatch gw inherited p w =
     (case functionCall p of
        None \<Rightarrow> (Inl TypeError, w)
      | Some (FunctionCall nm args) \<Rightarrow>
          (if args = Undefined \<or> args = Null then (Inl TypeError, w)
           else
             (let worker = getProp args ''worker''; task = getProp args ''task'' in
              case toString worker of
                Inl e \<Rightarrow> (Inl e, w)
              | Inr key \<Rightarrow>
                  (case task of
                     Str t \<Rightarrow>
                       (case map_of workers key of
                          Some (workerName, systemPrompt) \<Rightarrow>
                            (case callWorker gw workerName t systemPrompt w of
                               (Inl e, w') \<Rightarrow> (Inl e, w')
                             | (Inr result, w') \<Rightarrow>
                                 (Inr (FunctionResponse ''call_worker''
                                         (Obj [(''worker'', worker), (''result'', Str result)])),
                                  w'))
                        | None \<Rightarrow>
                            (case map_of inherited key of
                               Some member \<Rightarrow>
                                 (case member (Str t) of
                                    Returns result \<Rightarrow>
                                      (Inr (FunctionResponse ''call_worker''
                                              (Obj [(''worker'', worker), (''result'', result)])),
                                       w)
                                  | Throws err \<Rightarrow> (Inl (Uncaught err), w))
                             | None \<Rightarrow>
                                 (Inr (FunctionResponse ''call_worker''
                                         (Obj [(''worker'', worker),
                                               (''error'', Str (''Unknown worker: '' @ key))])),
                                  w)))
                   | _ \<Rightarrow> (Inl TypeError, w)))))"

text \<open>
  \<^verbatim>\<open>calls.map(async ...)\<close>: every call is started, in request order, before any is
  awaited; the gateway's state passes from one start to the next. The list holds what
  each promise settles to, in request order.
\<close>

fun dispatchAll ::
  "'g gateway \<Rightarrow> (string \<times> (jsval \<Rightarrow> settled)) list \<Rightarrow> part list \<Rightarrow> 'g
     \<Rightarrow> (exn + functionResponse) list \<times> 'g" where
  "dispatchAll gw inherited [] w = ([], w)"
| "dispatchAll gw inherited (p # ps) w =
     (case dispatch gw inherited p w of
        (r, w') \<Rightarrow> (case dispatchAll gw inherited ps w' of (rs, w'') \<Rightarrow> (r # rs, w'')))"

text \<open>
  \<^verbatim>\<open>await Promise.all(promises)\<close>: the values in the order of the promises when all
  fulfil; a rejection otherwise. When several reject, which one is reported depends on
  timing; the model reports the first in list order.
\<close>

fun promiseAll :: "(exn + 'a) list \<Rightarrow> exn + 'a list" where
  "promiseAll [] = Inr []"
| "promiseAll (Inl e # rs) = Inl e"
| "promiseAll (Inr v # rs) = (case promiseAll rs of Inl e \<Rightarrow> Inl e | Inr vs \<Rightarrow> Inr (v # vs))"

text \<open>
  The \<^verbatim>\<open>while (iteration++ < 5)\<close> loop of \<^verbatim>\<open>Orchestrator.run\<close>, entered with the
  response to inspect. \<open>history\<close> is the local chat session, \<open>inherited\<close> the
  members the \<^verbatim>\<open>workers\<close> object inherits. The local list
  \<^verbatim>\<open>allWorkerResults\<close> is written and never read, and is left out.
\<close>

function orchestratorLoop ::
  "'g gateway \<Rightarrow> (string \<times> (jsval \<Rightarrow> settled)) list \<Rightarrow> content list \<Rightarrow> part list \<Rightarrow> int
     \<Rightarrow> 'g \<Rightarrow> (exn + string) \<times> 'g" where
  "orchestratorLoop gw inherited history parts iteration w =
     (if iteration < 5 then
        (let calls = callsOf parts in
         if calls = [] then (Inr (textOf parts), w)
         else
           (case dispatchAll gw inherited calls w of
              (promises, w1) \<Rightarrow>
                (case promiseAll promises of
                   Inl e \<Rightarrow> (Inl e, w1)
                 | Inr results \<Rightarrow>
                     (case chatSend gw orchestratorModel history (FunctionResponses results) w1 of
                        (Inl e, history', w2) \<Rightarrow> (Inl e, w2)
                      | (Inr parts', history', w2) \<Rightarrow>
                          orchestratorLoop gw inherited history' parts' (iteration + 1) w2))))
      else (Inr ''Orchestration complete'', w))"
  by pat_completeness auto
termination
  by (relation "measure (\<lambda>(gw, inherited, history, parts, iteration, w). nat (5 - iteration))")
    auto

definition orchestratorRun ::
  "'g gateway \<Rightarrow> (string \<times> (jsval \<Rightarrow> settled)) list \<Rightarrow> string \<Rightarrow> 'g
     \<Rightarrow> (exn + string) \<times> 'g" where
  "orchestratorRun gw inherited userRequest w =
     (case chatSend gw orchestratorModel startChat (UserText userRequest) w of
        (Inl e, history, w') \<Rightarrow> (Inl e, w')
      | (Inr parts, history, w') \<Rightarrow> orchestratorLoop gw inherited history parts 0 w')"

section \<open>Debate with a judge\<close>

text \<open>\<^verbatim>\<open>llm(system, prompt)\<close>\<close>

definition llm :: "'g gateway \<Rightarrow> string \<Rightarrow> string \<Rightarrow> 'g \<Rightarrow> (exn + string) \<times> 'g" where
  "llm gw system prompt w =
     generateContent gw
       \<lparr> model = ''gemini-1.5-flash'', systemInstruction = system, tools = None \<rparr>
       prompt w"

definition proSystem :: string where
  "proSystem =
     ''You are a skilled debater arguing STRONGLY IN FAVOR of the given topic.\<newline>'' @
     ''     Be persuasive, use data/examples, max 200 words. Don't be wishy-washy.''"

definition conSystem :: string where
  "conSystem =
     ''You are a skilled debater arguing STRONGLY AGAINST the given topic.\<newline>'' @
     ''     Be persuasive, use data/examples, max 200 words. Don't be wishy-washy.''"

definition judgeSystem :: string where
  "judgeSystem =
     ''You are an impartial judge evaluating a debate. Be objective and analytical.\<newline>'' @
     ''     Score each side 1-10 on: Evidence, Logic, Persuasiveness.\<newline>'' @
     ''     Give a final verdict with clear reasoning.\<newline>'' @
     ''     Format:\<newline>'' @
     ''     ## Scores\<newline>'' @
     ''     ## Key Takeaways from Each Side  \<newline>'' @
     ''     ## Final Verdict\<newline>'' @
     ''     ## Recommendation''"

text \<open>
  The prompt of both debaters when \<^verbatim>\<open>opponentArg\<close> is truthy, and their opening
  prompts otherwise. \<^verbatim>\<open>opponentArg\<close> is \<^verbatim>\<open>null\<close> (\<open>None\<close>) or a string; the empty
  string is falsy.
\<close>

definition rebuttalPrompt :: "string \<Rightarrow> string \<Rightarrow> string \<Rightarrow> string" where
  "rebuttalPrompt topic context opponentArg =
     ''Topic: \"'' @ topic @ ''\"\<newline>Context: '' @ context @
     ''\<newline>\<newline>Your opponent said:\<newline>\"'' @ opponentArg @
     ''\"\<newline>\<newline>Counter their argument AND strengthen your position.''"

definition proPrompt :: "string \<Rightarrow> string \<Rightarrow> string option \<Rightarrow> string" where
  "proPrompt topic context opponentArg =
     (case opponentArg of
        Some arg \<Rightarrow>
          (if arg \<noteq> [] then rebuttalPrompt topic context arg
           else ''Make the strongest possible case FOR: \"'' @ topic @ ''\"\<newline>Context: '' @ context)
      | None \<Rightarrow> ''Make the strongest possible case FOR: \"'' @ topic @ ''\"\<newline>Context: '' @ context)"

definition conPrompt :: "string \<Rightarrow> string \<Rightarrow> string option \<Rightarrow> string" where
  "conPrompt topic context opponentArg =
     (case opponentArg of
        Some arg \<Rightarrow>
          (if arg \<noteq> [] then rebuttalPrompt topic context arg
           else ''Make the strongest possible case AGAINST: \"'' @ topic @ ''\"\<newline>Context: '' @ context)
      | None \<Rightarrow> ''Make the strongest possible case AGAINST: \"'' @ topic @ ''\"\<newline>Context: '' @ context)"

definition proAgent ::
  "'g gateway \<Rightarrow> string \<Rightarrow> string \<Rightarrow> string option \<Rightarrow> 'g \<Rightarrow> (exn + string) \<times> 'g" where
  "proAgent gw topic context opponentArg w =
     llm gw proSystem (proPrompt topic context opponentArg) w"

definition conAgent ::
  "'g gateway \<Rightarrow> string \<Rightarrow> string \<Rightarrow> string option \<Rightarrow> 'g \<Rightarrow> (exn + string) \<times> 'g" where
  "conAgent gw topic context opponentArg w =
     llm gw conSystem (conPrompt topic context opponentArg) w"

record debateRound =
  pro :: string
  con :: string

text \<open>\<^verbatim>\<open>rounds.map((r, i) => ...)\<close>, with \<open>i\<close> the index of the first element.\<close>

fun roundTexts :: "nat \<Rightarrow> debateRound list \<Rightarrow> string list" where
  "roundTexts i [] = []"
| "roundTexts i (r # rs) =
     (''=== Round '' @ showNat (i + 1) @ '' ===\<newline>FOR: '' @ pro r @
      ''\<newline>\<newline>AGAINST: '' @ con r) # roundTexts (i + 1) rs"

definition transcript :: "debateRound list \<Rightarrow> string" where
  "transcript rounds = join ''\<newline>\<newline>'' (roundTexts 0 rounds)"

definition judgePrompt :: "string \<Rightarrow> debateRound list \<Rightarrow> string \<Rightarrow> string" where
  "judgePrompt topic rounds context =
     ''Topic: \"'' @ topic @ ''\"\<newline>Context: '' @ context @
     ''\<newline>\<newline>Debate Transcript:\<newline>'' @ transcript rounds"

definition judgeAgent ::
  "'g gateway \<Rightarrow> string \<Rightarrow> debateRound list \<Rightarrow> string \<Rightarrow> 'g \<Rightarrow> (exn + string) \<times> 'g" where
  "judgeAgent gw topic rounds context w =
     llm gw judgeSystem (judgePrompt topic rounds context) w"

text \<open>
  The \<^verbatim>\<open>for (let i = 1; i <= rounds; i++)\<close> loop of \<^verbatim>\<open>runDebate\<close>. Both debaters
  are started (the FOR side first) before \<^verbatim>\<open>Promise.all\<close> is awaited, so both requests
  are made even when one fails; the round fails when either does.
\<close>

function debateLoop ::
  "'g gateway \<Rightarrow> string \<Rightarrow> string \<Rightarrow> int \<Rightarrow> int \<Rightarrow> debateRound list
     \<Rightarrow> string option \<Rightarrow> string option \<Rightarrow> 'g \<Rightarrow> (exn + debateRound list) \<times> 'g" where
  "debateLoop gw topic context rounds i debateRounds lastPro lastCon w =
     (if i \<le> rounds then
        (case proAgent gw topic context (if i > 1 then lastCon else None) w of
           (p, w1) \<Rightarrow>
             (case conAgent gw topic context (if i > 1 then lastPro else None) w1 of
                (c, w2) \<Rightarrow>
                  (case promiseAll [p, c] of
                     Inl e \<Rightarrow> (Inl e, w2)
                   | Inr both \<Rightarrow>
                       (let pro = both ! 0; con = both ! 1 in
                        debateLoop gw topic context rounds (i + 1)
                          (debateRounds @ [\<lparr> pro = pro, con = con \<rparr>])
                          (Some pro) (Some con) w2))))
      else (Inr debateRounds, w))"
  by pat_completeness auto
termination
  by (relation "measure (\<lambda>(gw, topic, context, rounds, i, debateRounds, lastPro, lastCon, w).
        nat (rounds + 1 - i))") auto

record debateResult =
  resultTopic :: string
  resultRounds :: "debateRound list"
  verdict :: string

text \<open>\<^verbatim>\<open>runDebate({ topic, context, rounds = 2 })\<close>; an omitted round count is \<open>None\<close>.\<close>

definition runDebate ::
  "'g gateway \<Rightarrow> string \<Rightarrow> string \<Rightarrow> int option \<Rightarrow> 'g
     \<Rightarrow> (exn + debateResult) \<times> 'g" where
  "runDebate gw topic context rounds w =
     (case debateLoop gw topic context (case rounds of None \<Rightarrow> 2 | Some n \<Rightarrow> n)
             1 [] None None w of
        (Inl e, w') \<Rightarrow> (Inl e, w')
      | (Inr debateRounds, w') \<Rightarrow>
          (case judgeAgent gw topic debateRounds context w' of
             (Inl e, w'') \<Rightarrow> (Inl e, w'')
           | (Inr v, w'') \<Rightarrow>
               (Inr \<lparr> resultTopic = topic, resultRounds = debateRounds, verdict = v \<rparr>, w'')))"

section \<open>Virtual time\<close>

text \<open>
  The two batch executors again, with a clock. \<open>latency p\<close> is the time the invocation
  requested by part \<open>p\<close> takes to settle. In \<^verbatim>\<open>BaseAgent.run\<close> the call is awaited
  inside the \<^verbatim>\<open>for\<close> loop, so the loop resumes, and the next call starts, when the
  call has settled. Results and agent are those of \<open>execCalls\<close>.
\<close>

fun execCallsTimed ::
  "(part \<Rightarrow> nat) \<Rightarrow> agent \<Rightarrow> part list \<Rightarrow> functionResponse list \<Rightarrow> nat
     \<Rightarrow> (exn + functionResponse list) \<times> agent \<times> nat" where
  "execCallsTimed latency a [] toolResults now = (Inr toolResults, a, now)"
| "execCallsTimed latency a (p # ps) toolResults now =
     (case functionCall p of
        None \<Rightarrow> (Inl TypeError, a, now)
      | Some fc \<Rightarrow>
          (let a' = a\<lparr>totalCalls := totalCalls a + 1\<rparr>;
               resumed = now + latency p
           in case callPart a' p of
                Inl e \<Rightarrow> (Inl e, a', resumed)
              | Inr r \<Rightarrow> execCallsTimed latency a' ps (toolResults @ [r]) resumed))"

text \<open>
  In \<^verbatim>\<open>Orchestrator.run\<close>, \<^verbatim>\<open>calls.map(async ...)\<close> starts every call at the current
  time, without awaiting any; the promise of the call for \<open>p\<close> settles \<open>latency p\<close>
  later.
\<close>

fun dispatchAllTimed ::
  "(part \<Rightarrow> nat) \<Rightarrow> 'g gateway \<Rightarrow> (string \<times> (jsval \<Rightarrow> settled)) list \<Rightarrow> part list \<Rightarrow> 'g
     \<Rightarrow> nat \<Rightarrow> ((exn + functionResponse) \<times> nat) list \<times> 'g" where
  "dispatchAllTimed latency gw inherited [] w now = ([], w)"
| "dispatchAllTimed latency gw inherited (p # ps) w now =
     (case dispatch gw inherited p w of
        (r, w') \<Rightarrow>
          (case dispatchAllTimed latency gw inherited ps w' now of
             (rs, w'') \<Rightarrow> ((r, now + latency p) # rs, w'')))"

text \<open>
  \<^verbatim>\<open>await Promise.all(promises)\<close> with settle times: it resumes when the last promise has
  fulfilled, or at a rejection (the model takes the earliest).
\<close>

fun rejectedAt :: "((exn + 'a) \<times> nat) list \<Rightarrow> nat list" where
  "rejectedAt [] = []"
| "rejectedAt ((Inl e, t) # ps) = t # rejectedAt ps"
| "rejectedAt ((Inr v, t) # ps) = rejectedAt ps"

definition promiseAllTimed :: "((exn + 'a) \<times> nat) list \<Rightarrow> nat \<Rightarrow> (exn + 'a list) \<times> nat" where
  "promiseAllTimed promises now =
     (promiseAll (map fst promises),
      (case rejectedAt promises of
         [] \<Rightarrow> fold max (map snd promises) now
       | t # ts \<Rightarrow> fold min ts t))"

section \<open>Predicates used in the statements\<close>

text \<open>
  A settled tool call that the \<^verbatim>\<open>catch\<close> block of \<^verbatim>\<open>run\<close> can turn into a payload:
  it returned, or it threw a value other than \<^verbatim>\<open>null\<close> and \<^verbatim>\<open>undefined\<close> whose
  \<^verbatim>\<open>message\<close> the log line can convert to a string.
\<close>

definition catchable :: "settled \<Rightarrow> bool" where
  "catchable s =
     (case s of
        Returns v \<Rightarrow> True
      | Throws e \<Rightarrow>
          e \<noteq> Undefined \<and> e \<noteq> Null \<and>
          (case toString (getProp e ''message'') of Inl x \<Rightarrow> False | Inr t \<Rightarrow> True))"

text \<open>Every member of a table settles catchably on every argument.\<close>

definition toolsCatchable :: "(string \<times> (jsval \<Rightarrow> settled)) list \<Rightarrow> bool" where
  "toolsCatchable fns = (\<forall>(nm, fn) \<in> set fns. \<forall>args. catchable (fn args))"

text \<open>The model turns of a conversation, in order: the responses the gateway gave.\<close>

fun modelTurns :: "content list \<Rightarrow> part list list" where
  "modelTurns [] = []"
| "modelTurns (ModelParts ps # cs) = ps # modelTurns cs"
| "modelTurns (UserText t # cs) = modelTurns cs"
| "modelTurns (FunctionResponses rs # cs) = modelTurns cs"

text \<open>
  A sequence of calls a client makes on one agent over its lifetime, run in order; the
  agent object persists from one call to the next, whatever the call's outcome.
\<close>

datatype agentOp = Run string jsval | Reset

fun lifetime ::
  "'g gateway \<Rightarrow> (jsval \<Rightarrow> string) \<Rightarrow> agentOp list \<Rightarrow> agent \<Rightarrow> 'g \<Rightarrow> agent \<times> 'g" where
  "lifetime gw stringify [] a w = (a, w)"
| "lifetime gw stringify (Run userMessage context # ops) a w =
     (case run gw stringify a userMessage context w of
        (r, a', w') \<Rightarrow> lifetime gw stringify ops a' w')"
| "lifetime gw stringify (Reset # ops) a w = lifetime gw stringify ops (reset a) w"

text \<open>
  The gateway states in which the calls of an orchestrator batch are started, in request
  order.
\<close>

fun startStates ::
  "'g gateway \<Rightarrow> (string \<times> (jsval \<Rightarrow> settled)) list \<Rightarrow> part list \<Rightarrow> 'g \<Rightarrow> 'g list" where
  "startStates gw inherited [] w = []"
| "startStates gw inherited (p # ps) w =
     w # startStates gw inherited ps (snd (dispatch gw inherited p w))"

text \<open>The model configuration \<^verbatim>\<open>llm(system, prompt)\<close> builds for a system prompt.\<close>

definition llmModel :: "string \<Rightarrow> generativeModel" where
  "llmModel system =
     \<lparr> model = ''gemini-1.5-flash'', systemInstruction = system, tools = None \<rparr>"

text \<open>
  The requests a debate with the given rounds is expected to make, in order: in each
  round the FOR side and then the AGAINST side, each given the other side's text of the
  previous round (none in the first round).
\<close>

fun debateRequests ::
  "string \<Rightarrow> string \<Rightarrow> debateRound option \<Rightarrow> debateRound list
     \<Rightarrow> (generativeModel \<times> content list) list" where
  "debateRequests topic context prev [] = []"
| "debateRequests topic context prev (r # rs) =
     (llmModel proSystem, [UserText (proPrompt topic context (map_option con prev))])
   # (llmModel conSystem, [UserText (conPrompt topic context (map_option pro prev))])
   # debateRequests topic context (Some r) rs"

text \<open>The texts of the rounds in round order, FOR before AGAINST.\<close>

fun roundSegments :: "debateRound list \<Rightarrow> string list" where
  "roundSegments [] = []"
| "roundSegments (r # rs) = pro r # con r # roundSegments rs"

text \<open>The texts occur in the string one after the other, without overlap.\<close>

fun occurInOrder :: "string list \<Rightarrow> string \<Rightarrow> bool" where
  "occurInOrder [] s = True"
| "occurInOrder (t # ts) s = (\<exists>pre post. s = pre @ t @ post \<and> occurInOrder ts post)"

text \<open>The longest latency among the requests of a batch (0 for an empty batch).\<close>

definition slowest :: "(part \<Rightarrow> nat) \<Rightarrow> part list \<Rightarrow> nat" where
  "slowest latency ps = fold max (map latency ps) 0"

section \<open>Stub gateways and agents for concrete runs\<close>

text \<open>A part carrying only text, and a part carrying only a function call.\<close>

definition textPart :: "string \<Rightarrow> part" where
  "textPart s = \<lparr> text = Some s, functionCall = None \<rparr>"

definition toolCallPart :: "string \<Rightarrow> jsval \<Rightarrow> part" where
  "toolCallPart nm args = \<lparr> text = None, functionCall = Some (FunctionCall nm args) \<rparr>"

text \<open>A part requesting \<^verbatim>\<open>call_worker\<close> for a worker and a task.\<close>

definition workerCallPart :: "string \<Rightarrow> string \<Rightarrow> part" where
  "workerCallPart worker task =
     toolCallPart ''call_worker'' (Obj [(''worker'', Str worker), (''task'', Str task)])"

text \<open>A gateway that gives the same answer to every request.\<close>

definition answering :: "part list \<Rightarrow> unit gateway" where
  "answering parts = (\<lambda>w m h. (Inr parts, w))"

text \<open>A gateway that never fails and numbers its answers.\<close>

definition numbered :: "nat gateway" where
  "numbered = (\<lambda>w m h. (Inr [textPart (''reply '' @ showNat w)], Suc w))"

text \<open>A gateway that replays a list of answers, one per request.\<close>

definition scripted :: "((exn + part list) list) gateway" where
  "scripted = (\<lambda>w m h. case w of [] \<Rightarrow> (Inl (GatewayFault ''script exhausted''), [])
                               | r # rs \<Rightarrow> (r, rs))"

text \<open>
  An agent with one tool, \<^verbatim>\<open>echo\<close>, that returns its arguments. Its tool map
  inherits nothing (an object without a prototype).
\<close>

definition echoAgent :: "int \<Rightarrow> agent" where
  "echoAgent n = newBaseAgent
     \<lparr> cfgName = ''Echo'', cfgSystemPrompt = ''You echo.'', cfgTools = None,
       cfgToolFns = Some [(''echo'', \<lambda>args. Returns args)],
       cfgInherited = [], cfgModel = None, cfgMaxSteps = Some n, cfgVerbose = None \<rparr>"

text \<open>
  An agent with a tool that returns and a tool that throws an \<^verbatim>\<open>Error\<close>; its tool map
  inherits one member, \<^verbatim>\<open>toString\<close>, which called without a receiver returns
  \<^verbatim>\<open>[object Undefined]\<close>. In the second agent, whose tool map inherits nothing, one
  tool's promise rejects with \<^verbatim>\<open>undefined\<close>, and another tool throws an object whose
  \<^verbatim>\<open>message\<close> has no string form.
\<close>

definition flakyAgent :: agent where
  "flakyAgent = newBaseAgent
     \<lparr> cfgName = ''Flaky'', cfgSystemPrompt = ''You try tools.'', cfgTools = None,
       cfgToolFns = Some [(''echo'', \<lambda>args. Returns args),
                          (''boom'', \<lambda>args. Throws (newError ''kaboom''))],
       cfgInherited = [(''toString'', \<lambda>args. Returns (Str ''[object Undefined]''))],
       cfgModel = None, cfgMaxSteps = None, cfgVerbose = None \<rparr>"

definition rejectingAgent :: agent where
  "rejectingAgent = newBaseAgent
     \<lparr> cfgName = ''Rejecting'', cfgSystemPrompt = ''You try tools.'', cfgTools = None,
       cfgToolFns = Some [(''echo'', \<lambda>args. Returns args),
                          (''reject'', \<lambda>args. Throws Undefined),
                          (''odd'', \<lambda>args. Throws (Obj [(''message'', Obj [(''toString'', Num 1)])]))],
       cfgInherited = [], cfgModel = None, cfgMaxSteps = None, cfgVerbose = None \<rparr>"

text \<open>
  Latencies for concrete runs: a numeric argument is the latency itself; a worker call
  takes 100 per character of its task.
\<close>

definition delay :: "part \<Rightarrow> nat" where
  "delay p =
     (case functionCall p of
        None \<Rightarrow> 0
      | Some (FunctionCall nm args) \<Rightarrow>
          (case args of
             Num n \<Rightarrow> nat n
           | _ \<Rightarrow> (case getProp args ''task'' of Str t \<Rightarrow> 100 * length t | _ \<Rightarrow> 0)))"

text \<open>
  A gateway wrapped so that its state also records every request it receives (the model
  configuration and the conversation sent), in order.
\<close>

definition recording ::
  "'g gateway \<Rightarrow> ('g \<times> (generativeModel \<times> content list) list) gateway" where
  "recording gw = (\<lambda>(w, log) m h. case gw w m h of (r, w') \<Rightarrow> (r, (w', log @ [(m, h)])))"

text \<open>The same, recording with every request the answer the gateway gave to it.\<close>

definition transcribing ::
  "'g gateway \<Rightarrow> ('g \<times> (generativeModel \<times> content list \<times> (exn + part list)) list) gateway" where
  "transcribing gw =
     (\<lambda>(w, log) m h. case gw w m h of (r, w') \<Rightarrow> (r, (w', log @ [(m, h, r)])))"

text \<open>The requests of a transcript, and the texts of its answers.\<close>

definition requestsOf ::
  "(generativeModel \<times> content list \<times> (exn + part list)) list
     \<Rightarrow> (generativeModel \<times> content list) list" where
  "requestsOf log = map (\<lambda>(m, h, r). (m, h)) log"

definition answersOf ::
  "(generativeModel \<times> content list \<times> (exn + part list)) list \<Rightarrow> (exn + string) list" where
  "answersOf log = map (\<lambda>(m, h, r). map_sum id textOf r) log"

lemmas stub_defs = run_def sendMessage_def chatSend_def scripted_def answering_def echoAgent_def
  newBaseAgent_def startChat_def callsOf_def textOf_def textPart_def toolCallPart_def showInt_def
  callPart_def callTool_def invoke_def fullMessage_def getMessage_def newError_def
  unknownToolMessage_def Let_def

section \<open>Lemmas about the tool loop\<close>

lemma getMessage_ok:
  "e \<noteq> Undefined \<Longrightarrow> e \<noteq> Null \<Longrightarrow> getMessage e = Inr (getProp e ''message'')"
  by (simp add: getMessage_def)

lemma invoke_catchable:
  "toolsCatchable (toolFns a @ inheritedFns a) \<Longrightarrow> catchable (invoke a nm args)"
proof (cases "map_of (toolFns a @ inheritedFns a) nm")
  case None
  then show ?thesis by (simp add: invoke_def catchable_def newError_def del: map_of_append)
next
  case (Some fn)
  assume "toolsCatchable (toolFns a @ inheritedFns a)"
  with map_of_SomeD[OF Some] have "catchable (fn args)" by (auto simp: toolsCatchable_def)
  with Some show ?thesis by (simp add: invoke_def del: map_of_append)
qed

lemma callTool_payload:
  "catchable (invoke a nm args) \<Longrightarrow>
     callTool a nm args =
       Inr (case invoke a nm args of
              Returns v \<Rightarrow> FunctionResponse nm v
            | Throws err \<Rightarrow>
                FunctionResponse nm (Obj [(''error'', getProp err ''message''), (''tool'', Str nm)]))"
  by (cases "invoke a nm args")
    (auto simp: callTool_def catchable_def getMessage_def split: sum.splits)

lemma callTool_ok:
  assumes "toolsCatchable (toolFns a @ inheritedFns a)"
  shows "\<exists>r. callTool a nm args = Inr r"
  using callTool_payload[OF invoke_catchable[OF assms]] by blast

lemma execCalls_ok:
  "\<forall>p \<in> set ps. functionCall p \<noteq> None \<Longrightarrow>
   toolsCatchable (toolFns a @ inheritedFns a) \<Longrightarrow>
   \<exists>rs' a'. execCalls a ps rs = (Inr rs', a')"
proof (induction ps arbitrary: a rs)
  case Nil
  then show ?case by simp
next
  case (Cons p ps)
  from Cons.prems(1) obtain nm args where fc: "functionCall p = Some (FunctionCall nm args)"
    by (cases "functionCall p") (auto intro: functionCall.exhaust)
  let ?a = "a\<lparr>totalCalls := totalCalls a + 1\<rparr>"
  have tools: "toolsCatchable (toolFns ?a @ inheritedFns ?a)"
    using Cons.prems(2) by simp
  from callTool_ok[OF tools, of nm args] obtain r where r: "callTool ?a nm args = Inr r" by blast
  from Cons.prems(1) have "\<forall>p \<in> set ps. functionCall p \<noteq> None" by simp
  from Cons.IH[OF this tools, of "rs @ [r]"] obtain rs' a' where
    "execCalls ?a ps (rs @ [r]) = (Inr rs', a')" by blast
  with fc r show ?case by (simp add: callPart_def Let_def)
qed

lemma callsOf_all: "\<forall>p \<in> set (callsOf parts). functionCall p \<noteq> None"
  by (simp add: callsOf_def)

lemma loop_exhausts:
  "\<forall>w m h. \<exists>parts. fst (gw w m h) = Inr parts \<and> callsOf parts \<noteq> [] \<Longrightarrow>
     stepCount a \<le> maxSteps a \<Longrightarrow> callsOf parts \<noteq> [] \<Longrightarrow>
     toolsCatchable (toolFns a @ inheritedFns a) \<Longrightarrow>
     \<exists>a' w'. loop gw a parts w =
       (Inr (Failure (''Max steps ('' @ showInt (maxSteps a) @ '') reached'') (maxSteps a)), a', w')"
proof (induction gw a parts w rule: loop.induct)
  case (1 gw a parts w)
  show ?case
  proof (cases "stepCount a < maxSteps a")
    case False
    with "1.prems"(2) have "stepCount a = maxSteps a" by simp
    with False show ?thesis by (subst loop.simps) simp
  next
    case True
    let ?a1 = "a\<lparr>stepCount := stepCount a + 1\<rparr>"
    have tools1: "toolsCatchable (toolFns ?a1 @ inheritedFns ?a1)"
      using "1.prems"(4) by simp
    from execCalls_ok[OF callsOf_all tools1, of parts "[]"] obtain rs a2 where
      e: "execCalls ?a1 (callsOf parts) [] = (Inr rs, a2)" by blast
    obtain r w' where g: "gw w (geminiModel a2) (chat a2 @ [FunctionResponses rs]) = (r, w')"
      by (cases "gw w (geminiModel a2) (chat a2 @ [FunctionResponses rs])")
    from "1.prems"(1) have
      "\<exists>parts. fst (gw w (geminiModel a2) (chat a2 @ [FunctionResponses rs])) = Inr parts
         \<and> callsOf parts \<noteq> []" by blast
    with g obtain parts' where
      p: "r = Inr parts'" "callsOf parts' \<noteq> []" by auto
    let ?a3 = "a2\<lparr>chat := chat a2 @ [FunctionResponses rs, ModelParts parts']\<rparr>"
    have s: "sendMessage gw a2 (FunctionResponses rs) w = (Inr parts', ?a3, w')"
      using g p by (simp add: sendMessage_def chatSend_def)
    from execCalls_frame[OF e] have fr: "stepCount a2 = stepCount a + 1" "maxSteps a2 = maxSteps a"
      "toolFns a2 = toolFns a" "inheritedFns a2 = inheritedFns a" by simp_all
    have le3: "stepCount ?a3 \<le> maxSteps ?a3" using fr True by simp
    have tools3: "toolsCatchable (toolFns ?a3 @ inheritedFns ?a3)"
      using "1.prems"(4) fr by simp
    from "1.IH"[OF True refl refl "1.prems"(3) e[symmetric] refl s[symmetric] refl refl
        "1.prems"(1) le3 p(2) tools3]
    have "\<exists>a' w'a. loop gw ?a3 parts' w' =
       (Inr (Failure (''Max steps ('' @ showInt (maxSteps ?a3) @ '') reached'') (maxSteps ?a3)), a', w'a)" .
    then obtain a' w'' where
      "loop gw ?a3 parts' w' = (Inr (Failure (''Max steps ('' @ showInt (maxSteps a) @ '') reached'') (maxSteps a)), a', w'')"
      using fr by auto
    with True "1.prems"(3) e s show ?thesis
      by (subst loop.simps) (simp add: Let_def)
  qed
qed

lemma modelTurns_append: "modelTurns (xs @ ys) = modelTurns xs @ modelTurns ys"
  by (induction xs rule: modelTurns.induct) simp_all

lemma sendMessage_Inr:
  "sendMessage gw a msg w = (Inr parts, a', w') \<Longrightarrow> a' = a\<lparr>chat := chat a @ [msg, ModelParts parts]\<rparr>"
  by (auto simp: sendMessage_def chatSend_def split: prod.splits sum.splits)

lemma loop_trace:
  "loop gw a parts w = (Inr res, a', w') \<Longrightarrow>
     \<exists>new. chat a' = chat a @ new \<and>
       (\<forall>q \<in> set (butlast (parts # modelTurns new)). callsOf q \<noteq> []) \<and>
       (case res of
          Success t n \<Rightarrow> callsOf (last (parts # modelTurns new)) = []
             \<and> t = textOf (last (parts # modelTurns new))
             \<and> n = stepCount a + int (length (parts # modelTurns new))
        | Failure e n \<Rightarrow> n = stepCount a + int (length (parts # modelTurns new)) - 1
             \<and> \<not> n < maxSteps a)"
proof (induction gw a parts w arbitrary: res a' w' rule: loop.induct)
  case (1 gw a parts w)
  show ?case
  proof (cases "stepCount a < maxSteps a")
    case False
    with "1.prems" have "res = Failure (''Max steps ('' @ showInt (maxSteps a) @ '') reached'') (stepCount a)" "a' = a"
      by (auto simp: loop.simps[of gw a parts w])
    with False show ?thesis by (intro exI[of _ "[]"]) simp
  next
    case True
    let ?a1 = "a\<lparr>stepCount := stepCount a + 1\<rparr>"
    show ?thesis
    proof (cases "callsOf parts = []")
      case nocalls: True
      with True "1.prems" have "res = Success (textOf parts) (stepCount a + 1)" "a' = ?a1"
        by (auto simp: loop.simps[of gw a parts w] Let_def)
      with nocalls show ?thesis by (intro exI[of _ "[]"]) simp
    next
      case calls: False
      obtain x a2 where e: "execCalls ?a1 (callsOf parts) [] = (x, a2)"
        by (cases "execCalls ?a1 (callsOf parts) []")
      with True calls "1.prems" obtain trs where x: "x = Inr trs"
        by (cases x) (simp_all add: loop.simps[of gw a parts w] Let_def)
      obtain y a3 w1 where s: "sendMessage gw a2 (FunctionResponses trs) w = (y, a3, w1)"
        by (cases "sendMessage gw a2 (FunctionResponses trs) w")
      with True calls "1.prems" e x obtain parts' where y: "y = Inr parts'"
        by (cases y) (simp_all add: loop.simps[of gw a parts w] Let_def)
      from True calls "1.prems" e x s y have l: "loop gw a3 parts' w1 = (Inr res, a', w')"
        by (simp add: loop.simps[of gw a parts w] Let_def)
      from "1.IH"[OF True refl refl calls e[unfolded x, symmetric] refl s[unfolded y, symmetric] refl refl l]
      obtain new' where n: "chat a' = chat a3 @ new'"
        "\<forall>q \<in> set (butlast (parts' # modelTurns new')). callsOf q \<noteq> []"
        "(case res of
          Success t n \<Rightarrow> callsOf (last (parts' # modelTurns new')) = []
             \<and> t = textOf (last (parts' # modelTurns new'))
             \<and> n = stepCount a3 + int (length (parts' # modelTurns new'))
        | Failure e n \<Rightarrow> n = stepCount a3 + int (length (parts' # modelTurns new')) - 1
             \<and> \<not> n < maxSteps a3)"
        by blast
      from execCalls_frame[OF e] have f2: "chat a2 = chat a" "stepCount a2 = stepCount a + 1" by simp_all
      from sendMessage_Inr[OF s[unfolded y]] have a3: "a3 = a2\<lparr>chat := chat a2 @ [FunctionResponses trs, ModelParts parts']\<rparr>" .
      let ?new = "[FunctionResponses trs, ModelParts parts'] @ new'"
      have c: "chat a' = chat a @ ?new" using n(1) a3 f2 by simp
      have mt: "modelTurns ?new = parts' # modelTurns new'" by simp
      have sc: "stepCount a3 = stepCount a + 1" using a3 f2 by simp
      have ms: "maxSteps a3 = maxSteps a" using a3 execCalls_frame[OF e] by simp
      have b: "\<forall>q \<in> set (butlast (parts # modelTurns ?new)). callsOf q \<noteq> []"
        using n(2) calls unfolding mt by simp
      have r: "(case res of
          Success t n \<Rightarrow> callsOf (last (parts # modelTurns ?new)) = []
             \<and> t = textOf (last (parts # modelTurns ?new))
             \<and> n = stepCount a + int (length (parts # modelTurns ?new))
        | Failure e n \<Rightarrow> n = stepCount a + int (length (parts # modelTurns ?new)) - 1
             \<and> \<not> n < maxSteps a)"
        using n(3) sc ms unfolding mt by (cases res) simp_all
      from c b r show ?thesis by blast
    qed
  qed
qed

lemma sendMessage_world:
  "snd (snd (sendMessage gw a msg w)) = snd (gw w (geminiModel a) (chat a @ [msg]))"
  by (auto simp: sendMessage_def chatSend_def split: prod.splits sum.splits)

lemma loop_log_grows:
  "\<forall>w m h. \<exists>more. snd (snd (gw w m h)) = snd w @ more \<Longrightarrow>
     \<exists>more. snd (snd (snd (loop gw a parts w))) = snd w @ more"
proof (induction gw a parts w rule: loop.induct)
  case (1 gw a parts w)
  show ?case
  proof (cases "stepCount a < maxSteps a \<and> callsOf parts \<noteq> []")
    case False
    then show ?thesis by (auto simp: loop.simps[of gw a parts w] Let_def)
  next
    case True
    let ?a1 = "a\<lparr>stepCount := stepCount a + 1\<rparr>"
    obtain x a2 where e: "execCalls ?a1 (callsOf parts) [] = (x, a2)"
      by (cases "execCalls ?a1 (callsOf parts) []")
    show ?thesis
    proof (cases x)
      case (Inl ex)
      with True e show ?thesis by (simp add: loop.simps[of gw a parts w] Let_def)
    next
      case (Inr trs)
      obtain y a3 w1 where s: "sendMessage gw a2 (FunctionResponses trs) w = (y, a3, w1)"
        by (cases "sendMessage gw a2 (FunctionResponses trs) w")
      from sendMessage_world[of gw a2 "FunctionResponses trs" w] s "1.prems"
      obtain m1 where m1: "snd w1 = snd w @ m1" by fastforce
      show ?thesis
      proof (cases y)
        case (Inl ex)
        with True e Inr s m1 show ?thesis by (simp add: loop.simps[of gw a parts w] Let_def)
      next
        case (Inr parts')
        from True have t1: "stepCount a < maxSteps a" and t2: "callsOf parts \<noteq> []" by simp_all
        from "1.IH"[OF t1 refl refl t2 e[unfolded \<open>x = Inr trs\<close>, symmetric] refl
            s[unfolded Inr, symmetric] refl refl "1.prems"]
        obtain m2 where "snd (snd (snd (loop gw a3 parts' w1))) = snd w1 @ m2" by blast
        with m1 have "snd (snd (snd (loop gw a3 parts' w1))) = snd w @ (m1 @ m2)" by simp
        with True e \<open>x = Inr trs\<close> s Inr show ?thesis
          by (simp add: loop.simps[of gw a parts w] Let_def)
      qed
    qed
  qed
qed

lemma recording_appends:
  "\<forall>w m h. \<exists>more. snd (snd (recording gw w m h)) = snd w @ more"
  by (auto simp: recording_def split: prod.splits)

lemma generateContent_world:
  "snd (generateContent gw m prompt w) = snd (gw w m [UserText prompt])"
  by (auto simp: generateContent_def split: prod.splits sum.splits)

lemma dispatch_world:
  "snd (dispatch gw inherited p w) = w
   \<or> (\<exists>m h. snd (dispatch gw inherited p w) = snd (gw w m h))"
proof (cases "functionCall p")
  case None
  then show ?thesis by (simp add: dispatch_def)
next
  case (Some fc)
  obtain nm args where fc: "fc = FunctionCall nm args" by (cases fc)
  show ?thesis
  proof (cases "args = Undefined \<or> args = Null")
    case True
    with Some fc show ?thesis by (auto simp: dispatch_def)
  next
    case False
    show ?thesis
    proof (cases "toString (getProp args ''worker'')")
      case (Inl e)
      with Some fc False show ?thesis by (simp add: dispatch_def Let_def)
    next
      case (Inr key)
      show ?thesis
      proof (cases "\<exists>t. getProp args ''task'' = Str t")
        case nt: False
        with Some fc False Inr show ?thesis
          by (cases "getProp args ''task''") (simp_all add: dispatch_def Let_def)
      next
        case True
        then obtain t where t: "getProp args ''task'' = Str t" by blast
        show ?thesis
        proof (cases "map_of workers key")
          case None
          with Some fc False Inr t show ?thesis
            by (auto simp: dispatch_def Let_def split: option.splits settled.splits)
        next
          case (Some ws)
          obtain wn sp where ws: "ws = (wn, sp)" by (cases ws)
          let ?m = "\<lparr> model = ''gemini-1.5-flash'', systemInstruction = sp, tools = None \<rparr>"
          have "snd (dispatch gw inherited p w) = snd (gw w ?m [UserText t])"
            using \<open>functionCall p = Some fc\<close> fc False Inr t Some ws
              generateContent_world[of gw ?m t w]
            by (auto simp: dispatch_def Let_def callWorker_def split: prod.splits sum.splits)
          then show ?thesis by blast
        qed
      qed
    qed
  qed
qed

lemma dispatch_log_grows:
  assumes "\<forall>w m h. \<exists>more. snd (snd (gw w m h)) = snd w @ more"
  shows "\<exists>more. snd (snd (dispatch gw inherited p w)) = snd w @ more"
  using dispatch_world[of gw inherited p w] assms by (metis append_Nil2)

lemma dispatchAll_log_grows:
  assumes "\<forall>w m h. \<exists>more. snd (snd (gw w m h)) = snd w @ more"
  shows "\<exists>more. snd (snd (dispatchAll gw inherited ps w)) = snd w @ more"
proof (induction ps arbitrary: w)
  case Nil
  show ?case by simp
next
  case (Cons p ps)
  obtain r w1 where d: "dispatch gw inherited p w = (r, w1)" by (cases "dispatch gw inherited p w")
  from dispatch_log_grows[OF assms, of inherited p w] d obtain m1 where m1: "snd w1 = snd w @ m1"
    by auto
  obtain rs w2 where da: "dispatchAll gw inherited ps w1 = (rs, w2)"
    by (cases "dispatchAll gw inherited ps w1")
  from Cons.IH[of w1] da obtain m2 where "snd w2 = snd w1 @ m2" by auto
  with m1 d da show ?case by simp
qed

lemma chatSend_world:
  "snd (snd (chatSend gw m history msg w)) = snd (gw w m (history @ [msg]))"
  by (auto simp: chatSend_def split: prod.splits sum.splits)

lemma orchestratorLoop_log_grows:
  "\<forall>w m h. \<exists>more. snd (snd (gw w m h)) = snd w @ more \<Longrightarrow>
     \<exists>more. snd (snd (orchestratorLoop gw inherited history parts iteration w)) = snd w @ more"
proof (induction gw inherited history parts iteration w rule: orchestratorLoop.induct)
  case (1 gw inherited history parts iteration w)
  show ?case
  proof (cases "iteration < 5 \<and> callsOf parts \<noteq> []")
    case False
    then show ?thesis
      by (auto simp: orchestratorLoop.simps[of gw inherited history parts iteration w] Let_def)
  next
    case True
    obtain promises w1 where d: "dispatchAll gw inherited (callsOf parts) w = (promises, w1)"
      by (cases "dispatchAll gw inherited (callsOf parts) w")
    from dispatchAll_log_grows[OF "1.prems", of inherited "callsOf parts" w] d
    obtain m1 where m1: "snd w1 = snd w @ m1" by auto
    show ?thesis
    proof (cases "promiseAll promises")
      case (Inl e)
      with True d m1 show ?thesis
        by (simp add: orchestratorLoop.simps[of gw inherited history parts iteration w] Let_def)
    next
      case (Inr results)
      obtain y h' w2 where s:
        "chatSend gw orchestratorModel history (FunctionResponses results) w1 = (y, h', w2)"
        by (cases "chatSend gw orchestratorModel history (FunctionResponses results) w1")
      from chatSend_world[of gw orchestratorModel history "FunctionResponses results" w1] s "1.prems"
      obtain m2 where m2: "snd w2 = snd w1 @ m2" by fastforce
      show ?thesis
      proof (cases y)
        case (Inl e)
        with True d Inr s m1 m2 show ?thesis
          by (simp add: orchestratorLoop.simps[of gw inherited history parts iteration w] Let_def)
      next
        case ps: (Inr parts')
        from True have t1: "iteration < 5" and t2: "callsOf parts \<noteq> []" by simp_all
        from "1.IH"[OF t1 refl t2 d[symmetric] Inr s[unfolded ps, symmetric] refl refl "1.prems"]
        obtain m3 where "snd (snd (orchestratorLoop gw inherited h' parts' (iteration + 1) w2)) = snd w2 @ m3"
          by blast
        with m1 m2 have "snd (snd (orchestratorLoop gw inherited h' parts' (iteration + 1) w2))
            = snd w @ (m1 @ m2 @ m3)" by simp
        with True d Inr s ps show ?thesis
          by (simp add: orchestratorLoop.simps[of gw inherited history parts iteration w] Let_def)
      qed
    qed
  qed
qed

lemma execCalls_totalCalls:
  "execCalls a ps rs = (r, a') \<Longrightarrow> totalCalls a \<le> totalCalls a'"
proof (induction a ps rs arbitrary: r a' rule: execCalls.induct)
  case (1 a toolResults)
  then show ?case by simp
next
  case (2 a p ps toolResults)
  show ?case
  proof (cases "functionCall p")
    case None
    with "2.prems" show ?thesis by auto
  next
    case (Some fc)
    let ?a = "a\<lparr>totalCalls := totalCalls a + 1\<rparr>"
    show ?thesis
    proof (cases "callPart ?a p")
      case (Inl e)
      with "2.prems" Some show ?thesis by (auto simp: Let_def)
    next
      case (Inr fr)
      with "2.prems" Some have "execCalls ?a ps (toolResults @ [fr]) = (r, a')"
        by (simp add: Let_def)
      from "2.IH"[OF Some refl Inr this] show ?thesis by simp
    qed
  qed
qed

lemma execCalls_count:
  "execCalls a ps rs = (Inr rs', a') \<Longrightarrow>
     totalCalls a' = totalCalls a + int (length ps) \<and> length rs' = length rs + length ps"
proof (induction a ps rs arbitrary: rs' a' rule: execCalls.induct)
  case (1 a toolResults)
  then show ?case by simp
next
  case (2 a p ps toolResults)
  show ?case
  proof (cases "functionCall p")
    case None
    with "2.prems" show ?thesis by auto
  next
    case (Some fc)
    let ?a = "a\<lparr>totalCalls := totalCalls a + 1\<rparr>"
    show ?thesis
    proof (cases "callPart ?a p")
      case (Inl e)
      with "2.prems" Some show ?thesis by (auto simp: Let_def)
    next
      case (Inr fr)
      with "2.prems" Some have "execCalls ?a ps (toolResults @ [fr]) = (Inr rs', a')"
        by (simp add: Let_def)
      from "2.IH"[OF Some refl Inr this] show ?thesis by simp
    qed
  qed
qed

lemma sendMessage_totalCalls:
  "totalCalls (fst (snd (sendMessage gw a msg w))) = totalCalls a"
  by (auto simp: sendMessage_def chatSend_def split: prod.splits sum.splits)

lemma loop_totalCalls:
  "totalCalls a \<le> totalCalls (fst (snd (loop gw a parts w)))"
proof (induction gw a parts w rule: loop.induct)
  case (1 gw a parts w)
  show ?case
  proof (cases "stepCount a < maxSteps a \<and> callsOf parts \<noteq> []")
    case False
    then show ?thesis by (auto simp: loop.simps[of gw a parts w] Let_def)
  next
    case True
    let ?a1 = "a\<lparr>stepCount := stepCount a + 1\<rparr>"
    obtain x a2 where e: "execCalls ?a1 (callsOf parts) [] = (x, a2)"
      by (cases "execCalls ?a1 (callsOf parts) []")
    from execCalls_totalCalls[OF e] have t2: "totalCalls a \<le> totalCalls a2" by simp
    show ?thesis
    proof (cases x)
      case (Inl ex)
      with True e t2 show ?thesis by (simp add: loop.simps[of gw a parts w] Let_def)
    next
      case (Inr trs)
      obtain y a3 w1 where s: "sendMessage gw a2 (FunctionResponses trs) w = (y, a3, w1)"
        by (cases "sendMessage gw a2 (FunctionResponses trs) w")
      from sendMessage_totalCalls[of gw a2 "FunctionResponses trs" w] s
      have t3: "totalCalls a3 = totalCalls a2" by simp
      show ?thesis
      proof (cases y)
        case (Inl ex)
        with True e Inr s t2 t3 show ?thesis by (simp add: loop.simps[of gw a parts w] Let_def)
      next
        case (Inr parts')
        from True have c1: "stepCount a < maxSteps a" and c2: "callsOf parts \<noteq> []" by simp_all
        from "1.IH"[OF c1 refl refl c2 e[unfolded \<open>x = Inr trs\<close>, symmetric] refl
            s[unfolded Inr, symmetric] refl refl]
        have "totalCalls a3 \<le> totalCalls (fst (snd (loop gw a3 parts' w1)))" .
        with t2 t3 True e \<open>x = Inr trs\<close> s Inr show ?thesis
          by (simp add: loop.simps[of gw a parts w] Let_def)
      qed
    qed
  qed
qed

lemma run_totalCalls:
  "totalCalls a \<le> totalCalls (fst (snd (run gw stringify a userMessage context w)))"
proof -
  let ?a0 = "a\<lparr>stepCount := 0\<rparr>"
  let ?msg = "UserText (fullMessage stringify userMessage context)"
  obtain y a1 w1 where s: "sendMessage gw ?a0 ?msg w = (y, a1, w1)"
    by (cases "sendMessage gw ?a0 ?msg w")
  from sendMessage_totalCalls[of gw ?a0 ?msg w] s have t: "totalCalls a1 = totalCalls a" by simp
  show ?thesis
  proof (cases y)
    case (Inl e)
    with s t show ?thesis by (simp add: run_def Let_def)
  next
    case (Inr parts)
    with s t loop_totalCalls[of a1 gw parts w1] show ?thesis by (simp add: run_def Let_def)
  qed
qed

lemma lifetime_totalCalls:
  "totalCalls a \<le> totalCalls (fst (lifetime gw stringify ops a w))"
proof (induction ops arbitrary: a w)
  case Nil
  show ?case by simp
next
  case (Cons op ops)
  show ?case
  proof (cases op)
    case (Run m c)
    obtain r a' w' where r: "run gw stringify a m c w = (r, a', w')"
      by (cases "run gw stringify a m c w")
    from run_totalCalls[of a gw stringify m c w] r have "totalCalls a \<le> totalCalls a'" by simp
    with Cons.IH[of a' w'] r Run show ?thesis by simp
  next
    case Reset
    with Cons.IH[of "reset a" w] show ?thesis by (simp add: reset_def)
  qed
qed

lemma callTool_toolFns:
  assumes "toolFns a = toolFns b" and "inheritedFns a = inheritedFns b"
  shows "callTool a nm args = callTool b nm args"
proof -
  have u: "unknownToolMessage a nm = unknownToolMessage b nm"
    using assms by (simp add: unknownToolMessage_def)
  have "invoke a nm args = invoke b nm args"
    unfolding invoke_def assms u ..
  then show ?thesis by (simp add: callTool_def)
qed

lemma callPart_toolFns:
  assumes "toolFns a = toolFns b" and "inheritedFns a = inheritedFns b"
  shows "callPart a p = callPart b p"
  by (simp add: callPart_def callTool_toolFns[OF assms] split: option.splits functionCall.splits)

lemma execCalls_pointwise:
  "execCalls a ps rs0 = (Inr rs, a') \<Longrightarrow>
     \<exists>new. rs = rs0 @ new \<and> length new = length ps \<and>
       (\<forall>k < length ps. callPart a (ps ! k) = Inr (new ! k))"
proof (induction a ps rs0 arbitrary: rs a' rule: execCalls.induct)
  case (1 a toolResults)
  then show ?case by simp
next
  case (2 a p ps toolResults)
  show ?case
  proof (cases "functionCall p")
    case None
    with "2.prems" show ?thesis by auto
  next
    case (Some fc)
    let ?a = "a\<lparr>totalCalls := totalCalls a + 1\<rparr>"
    show ?thesis
    proof (cases "callPart ?a p")
      case (Inl e)
      with "2.prems" Some show ?thesis by (auto simp: Let_def)
    next
      case (Inr fr)
      with "2.prems" Some have "execCalls ?a ps (toolResults @ [fr]) = (Inr rs, a')"
        by (simp add: Let_def)
      from "2.IH"[OF Some refl Inr this] obtain new where
        n: "rs = (toolResults @ [fr]) @ new" "length new = length ps"
           "\<forall>k < length ps. callPart ?a (ps ! k) = Inr (new ! k)" by blast
      have same: "\<And>q. callPart ?a q = callPart a q" by (rule callPart_toolFns) simp_all
      have "\<forall>k < length (p # ps). callPart a ((p # ps) ! k) = Inr ((fr # new) ! k)"
      proof (intro allI impI)
        fix k assume "k < length (p # ps)"
        then show "callPart a ((p # ps) ! k) = Inr ((fr # new) ! k)"
          using n(3) Inr same by (cases k) auto
      qed
      with n(1,2) show ?thesis by (intro exI[of _ "fr # new"]) simp
    qed
  qed
qed

lemma execCalls_all_ok:
  "\<forall>p \<in> set ps. \<exists>r. callPart a p = Inr r \<Longrightarrow>
     \<exists>rs'. execCalls a ps rs = (Inr rs', a\<lparr>totalCalls := totalCalls a + int (length ps)\<rparr>)"
proof (induction ps arbitrary: a rs)
  case Nil
  show ?case by simp
next
  case (Cons p ps)
  let ?a = "a\<lparr>totalCalls := totalCalls a + 1\<rparr>"
  have same: "\<And>q. callPart ?a q = callPart a q" by (rule callPart_toolFns) simp_all
  from Cons.prems obtain r where r: "callPart a p = Inr r" by auto
  then have fc: "functionCall p \<noteq> None" by (auto simp: callPart_def split: option.splits)
  from Cons.prems have "\<forall>q \<in> set ps. \<exists>r. callPart ?a q = Inr r" by (simp add: same)
  from Cons.IH[OF this, of "rs @ [r]"] obtain rs' where
    "execCalls ?a ps (rs @ [r]) = (Inr rs', ?a\<lparr>totalCalls := totalCalls ?a + int (length ps)\<rparr>)"
    by blast
  moreover have "?a\<lparr>totalCalls := totalCalls ?a + int (length ps)\<rparr>
      = a\<lparr>totalCalls := totalCalls a + int (length (p # ps))\<rparr>" by simp
  ultimately show ?case using fc r same by (auto simp: Let_def)
qed

lemma loop_batch_step:
  assumes lt: "stepCount a < maxSteps a"
    and calls: "callsOf parts \<noteq> []"
    and ok: "\<forall>p \<in> set (callsOf parts). \<exists>r. callPart a p = Inr r"
  shows "\<exists>rs. length rs = length (callsOf parts)
      \<and> (\<forall>j < length (callsOf parts). callPart a (callsOf parts ! j) = Inr (rs ! j))
      \<and> loop gw a parts w =
          (case sendMessage gw
                  (a\<lparr>stepCount := stepCount a + 1,
                      totalCalls := totalCalls a + int (length (callsOf parts))\<rparr>)
                  (FunctionResponses rs) w of
             (Inl e, a3, w') \<Rightarrow> (Inl e, a3, w')
           | (Inr parts', a3, w') \<Rightarrow> loop gw a3 parts' w')"
proof -
  let ?a1 = "a\<lparr>stepCount := stepCount a + 1\<rparr>"
  let ?a2 = "a\<lparr>stepCount := stepCount a + 1,
                totalCalls := totalCalls a + int (length (callsOf parts))\<rparr>"
  have same: "\<And>q. callPart ?a1 q = callPart a q" by (rule callPart_toolFns) simp_all
  from ok have "\<forall>p \<in> set (callsOf parts). \<exists>r. callPart ?a1 p = Inr r" by (simp add: same)
  from execCalls_all_ok[OF this, of "[]"] obtain rs where
    e: "execCalls ?a1 (callsOf parts) [] = (Inr rs, ?a2)" by auto
  from execCalls_pointwise[OF e] have len: "length rs = length (callsOf parts)"
    and pw: "\<forall>j < length (callsOf parts). callPart a (callsOf parts ! j) = Inr (rs ! j)"
    by (auto simp: same)
  have "loop gw a parts w =
          (case sendMessage gw ?a2 (FunctionResponses rs) w of
             (Inl e, a3, w') \<Rightarrow> (Inl e, a3, w')
           | (Inr parts', a3, w') \<Rightarrow> loop gw a3 parts' w')"
    using lt calls e by (subst loop.simps) (simp add: Let_def)
  with len pw show ?thesis by blast
qed

lemma promiseAll_pointwise:
  "promiseAll ps = Inr vs \<Longrightarrow> length vs = length ps \<and> (\<forall>k < length ps. ps ! k = Inr (vs ! k))"
proof (induction ps arbitrary: vs rule: promiseAll.induct)
  case 1
  then show ?case by simp
next
  case (2 e rs)
  then show ?case by simp
next
  case (3 v rs)
  from "3.prems" obtain vs' where v: "promiseAll rs = Inr vs'" "vs = v # vs'"
    by (auto split: sum.splits)
  from "3.IH"[OF v(1)] have ih: "length vs' = length rs" "\<forall>k < length rs. rs ! k = Inr (vs' ! k)"
    by simp_all
  have "\<forall>k < length (Inr v # rs). (Inr v # rs) ! k = Inr (vs ! k)"
  proof (intro allI impI)
    fix k assume "k < length (Inr v # rs)"
    then show "(Inr v # rs) ! k = Inr (vs ! k)" using ih v(2) by (cases k) auto
  qed
  with ih v(2) show ?case by simp
qed

lemma dispatchAll_pointwise:
  "length (fst (dispatchAll gw inherited ps w)) = length ps \<and>
   (\<forall>k < length ps. fst (dispatchAll gw inherited ps w) ! k = fst (dispatch gw inherited (ps ! k) (startStates gw inherited ps w ! k)))"
proof (induction ps arbitrary: w)
  case Nil
  show ?case by simp
next
  case (Cons p ps)
  obtain r w' where d: "dispatch gw inherited p w = (r, w')" by (cases "dispatch gw inherited p w")
  obtain rs w'' where da: "dispatchAll gw inherited ps w' = (rs, w'')" by (cases "dispatchAll gw inherited ps w'")
  from Cons.IH[of w'] da have ih: "length rs = length ps"
    "\<forall>k < length ps. rs ! k = fst (dispatch gw inherited (ps ! k) (startStates gw inherited ps w' ! k))" by simp_all
  have "\<forall>k < length (p # ps). (r # rs) ! k
           = fst (dispatch gw inherited ((p # ps) ! k) (startStates gw inherited (p # ps) w ! k))"
  proof (intro allI impI)
    fix k assume "k < length (p # ps)"
    then show "(r # rs) ! k = fst (dispatch gw inherited ((p # ps) ! k) (startStates gw inherited (p # ps) w ! k))"
      using ih d by (cases k) auto
  qed
  with d da ih show ?case by simp
qed

lemma startsWith_iff: "startsWith s t \<longleftrightarrow> (\<exists>post. s = t @ post)"
  by (induction s t rule: startsWith.induct) auto

lemma includes_iff: "includes s t \<longleftrightarrow> (\<exists>pre post. s = pre @ t @ post)"
proof (induction s)
  case Nil
  show ?case by auto
next
  case (Cons c s)
  show ?case
  proof
    assume "includes (c # s) t"
    then consider "startsWith (c # s) t" | "includes s t" by auto
    then show "\<exists>pre post. c # s = pre @ t @ post"
    proof cases
      case 1
      then obtain post where "c # s = t @ post" by (auto simp: startsWith_iff)
      then have "c # s = [] @ t @ post" by simp
      then show ?thesis by blast
    next
      case 2
      with Cons.IH obtain pre post where "s = pre @ t @ post" by blast
      then have "c # s = (c # pre) @ t @ post" by simp
      then show ?thesis by blast
    qed
  next
    assume "\<exists>pre post. c # s = pre @ t @ post"
    then obtain pre post where e: "c # s = pre @ t @ post" by blast
    show "includes (c # s) t"
    proof (cases pre)
      case Nil
      with e have "startsWith (c # s) t" by (auto simp: startsWith_iff)
      then show ?thesis by simp
    next
      case (Cons d pre')
      with e have "s = pre' @ t @ post" by simp
      with Cons.IH have "includes s t" by blast
      then show ?thesis by simp
    qed
  qed
qed

lemma includes_middle: "includes (pre @ t @ post) t"
  by (auto simp: includes_iff)

lemma callTool_unknown:
  "map_of (toolFns a @ inheritedFns a) nm = None \<Longrightarrow>
     callTool a nm args =
       Inr (FunctionResponse nm (Obj [(''error'', Str (unknownToolMessage a nm)), (''tool'', Str nm)]))"
  by (simp add: callTool_def invoke_def newError_def getMessage_def del: map_of_append)

lemma unknownToolMessage_update:
  "unknownToolMessage (a\<lparr>stepCount := n, totalCalls := m\<rparr>) nm = unknownToolMessage a nm"
  by (simp add: unknownToolMessage_def)

lemma callTool_nullish_escapes:
  "invoke a nm args = Throws Undefined \<or> invoke a nm args = Throws Null \<Longrightarrow>
     callTool a nm args = Inl TypeError"
  by (auto simp: callTool_def getMessage_def)

lemma promiseAll_rejects: "Inl e \<in> set rs \<Longrightarrow> \<exists>e'. promiseAll rs = Inl e'"
  by (induction rs rule: promiseAll.induct) (auto split: sum.splits)

text \<open>
  A rejection with \<^verbatim>\<open>undefined\<close> is not turned into a payload: reading
  \<^verbatim>\<open>err.message\<close> in the \<^verbatim>\<open>catch\<close> block throws, and the batch ends there.
\<close>

lemma undefined_rejection_escapes:
  "execCalls rejectingAgent
      [toolCallPart ''reject'' Null, toolCallPart ''echo'' (Num 2)] []
     = (Inl TypeError, rejectingAgent\<lparr>totalCalls := 1\<rparr>)"
  by (simp add: stub_defs rejectingAgent_def)

text \<open>
  Neither is a thrown object whose \<^verbatim>\<open>message\<close> has no string form: the log line of the
  \<^verbatim>\<open>catch\<close> block throws.
\<close>

lemma unprintable_message_escapes:
  "execCalls rejectingAgent
      [toolCallPart ''odd'' Null, toolCallPart ''echo'' (Num 2)] []
     = (Inl TypeError, rejectingAgent\<lparr>totalCalls := 1\<rparr>)"
  by (simp add: stub_defs rejectingAgent_def)

text \<open>
  A name the tool map inherits is not unknown: the inherited member is called and its
  value is the result.
\<close>

lemma inherited_name_is_called:
  "callTool flakyAgent ''toString'' Null
     = Inr (FunctionResponse ''toString'' (Str ''[object Undefined]''))"
  by (simp add: stub_defs flakyAgent_def)

section \<open>Lemmas about the debate\<close>

lemma llm_transcribing:
  assumes "\<forall>w m h. \<exists>parts. fst (gw w m h) = Inr parts"
  shows "\<exists>parts w'. llm (transcribing gw) system prompt (w, L)
           = (Inr (textOf parts), (w', L @ [(llmModel system, [UserText prompt], Inr parts)]))"
proof -
  obtain r w' where g: "gw w (llmModel system) [UserText prompt] = (r, w')"
    by (cases "gw w (llmModel system) [UserText prompt]")
  from assms have "\<exists>parts. fst (gw w (llmModel system) [UserText prompt]) = Inr parts" by blast
  with g obtain parts where "r = Inr parts" by auto
  with g show ?thesis
    by (simp add: llm_def generateContent_def transcribing_def llmModel_def)
qed

lemma requestsOf_append: "requestsOf (xs @ ys) = requestsOf xs @ requestsOf ys"
  by (simp add: requestsOf_def)

lemma answersOf_append: "answersOf (xs @ ys) = answersOf xs @ answersOf ys"
  by (simp add: answersOf_def)

lemma debateLoop_transcript:
  assumes nf: "\<forall>w m h. \<exists>parts. fst (gw w m h) = Inr parts"
  shows "n = nat (rounds + 1 - i) \<Longrightarrow> 1 \<le> i \<Longrightarrow> (1 < i \<or> prev = None) \<Longrightarrow>
     \<exists>more w' L'. debateLoop (transcribing gw) topic context rounds i rs
                  (map_option pro prev) (map_option con prev) (w, L)
         = (Inr (rs @ more), (w', L @ L'))
       \<and> requestsOf L' = debateRequests topic context prev more
       \<and> answersOf L' = map Inr (roundSegments more)
       \<and> length more = n"
proof (induction n arbitrary: i prev rs w L)
  case 0
  then have "\<not> i \<le> rounds" by simp
  then have "debateLoop (transcribing gw) topic context rounds i rs
                  (map_option pro prev) (map_option con prev) (w, L)
         = (Inr (rs @ []), (w, L @ []))"
    by (subst debateLoop.simps) simp
  then show ?case by (intro exI[of _ "[]"] exI[of _ w]) (simp add: requestsOf_def answersOf_def)
next
  case (Suc n)
  then have le: "i \<le> rounds" by simp
  let ?pa = "if 1 < i then map_option con prev else None"
  let ?ca = "if 1 < i then map_option pro prev else None"
  from Suc.prems(3) have pa: "?pa = map_option con prev" and ca: "?ca = map_option pro prev"
    by auto
  let ?pm = "llmModel proSystem" and ?ph = "[UserText (proPrompt topic context (map_option con prev))]"
  let ?cm = "llmModel conSystem" and ?ch = "[UserText (conPrompt topic context (map_option pro prev))]"
  from llm_transcribing[OF nf, of proSystem "proPrompt topic context (map_option con prev)" w L]
  obtain pp w1 where p: "proAgent (transcribing gw) topic context ?pa (w, L)
      = (Inr (textOf pp), (w1, L @ [(?pm, ?ph, Inr pp)]))"
    unfolding pa by (auto simp: proAgent_def)
  from llm_transcribing[OF nf, of conSystem "conPrompt topic context (map_option pro prev)" w1
      "L @ [(?pm, ?ph, Inr pp)]"]
  obtain cp w2 where c: "conAgent (transcribing gw) topic context ?ca (w1, L @ [(?pm, ?ph, Inr pp)])
      = (Inr (textOf cp), (w2, L @ [(?pm, ?ph, Inr pp), (?cm, ?ch, Inr cp)]))"
    unfolding ca by (auto simp: conAgent_def)
  let ?r = "\<lparr> pro = textOf pp, con = textOf cp \<rparr>"
  let ?L2 = "[(?pm, ?ph, Inr pp), (?cm, ?ch, Inr cp)]"
  have n: "n = nat (rounds + 1 - (i + 1))" using Suc.prems(1) by simp
  have i1: "1 \<le> i + 1" "1 < i + 1 \<or> Some ?r = None" using Suc.prems(2) by simp_all
  from Suc.IH[OF n i1, of "rs @ [?r]" w2 "L @ ?L2"]
  obtain more w' L' where m:
    "debateLoop (transcribing gw) topic context rounds (i + 1) (rs @ [?r])
        (Some (textOf pp)) (Some (textOf cp)) (w2, L @ ?L2)
      = (Inr ((rs @ [?r]) @ more), (w', (L @ ?L2) @ L'))"
    "requestsOf L' = debateRequests topic context (Some ?r) more"
    "answersOf L' = map Inr (roundSegments more)"
    "length more = n"
    by auto
  have "debateLoop (transcribing gw) topic context rounds i rs
                  (map_option pro prev) (map_option con prev) (w, L)
         = (Inr (rs @ (?r # more)), (w', L @ (?L2 @ L')))"
    using le p c m(1) by (subst debateLoop.simps) (simp add: Let_def)
  moreover have "requestsOf (?L2 @ L') = debateRequests topic context prev (?r # more)"
    unfolding requestsOf_append m(2) by (simp add: requestsOf_def)
  moreover have "answersOf (?L2 @ L') = map Inr (roundSegments (?r # more))"
    unfolding answersOf_append m(3) by (simp add: answersOf_def)
  ultimately show ?case using m(4) by (intro exI[of _ "?r # more"] exI[of _ w'] exI[of _ "?L2 @ L'"]) simp
qed

lemma occurInOrder_prefix: "occurInOrder ts s \<Longrightarrow> occurInOrder ts (pre @ s)"
proof (cases ts)
  case Nil
  then show ?thesis by simp
next
  case (Cons t ts')
  assume "occurInOrder ts s"
  with Cons obtain a b where "s = a @ t @ b" "occurInOrder ts' b" by auto
  then have "pre @ s = (pre @ a) @ t @ b \<and> occurInOrder ts' b" by simp
  with Cons show ?thesis by (simp del: append_assoc) blast
qed

lemma occurInOrder_cons: "occurInOrder ts post \<Longrightarrow> occurInOrder (t # ts) (pre @ t @ post)"
  by (subst occurInOrder.simps) blast

lemma occurInOrder_roundTexts:
  "occurInOrder (roundSegments rs) (join sep (roundTexts i rs))"
proof (induction rs arbitrary: i)
  case Nil
  show ?case by simp
next
  case (Cons r rs)
  let ?hdr = "''=== Round '' @ showNat (i + 1) @ '' ===\<newline>FOR: ''"
  let ?mid = "''\<newline>\<newline>AGAINST: ''"
  obtain tail where tail: "join sep (roundTexts i (r # rs)) = ?hdr @ pro r @ ?mid @ con r @ tail"
    "occurInOrder (roundSegments rs) tail"
  proof (cases rs)
    case Nil
    then have "join sep (roundTexts i (r # rs)) = ?hdr @ pro r @ ?mid @ con r @ []"
      "occurInOrder (roundSegments rs) []" by simp_all
    then show ?thesis by (rule that)
  next
    case (Cons r' rs')
    then have "join sep (roundTexts i (r # rs))
        = ?hdr @ pro r @ ?mid @ con r @ (sep @ join sep (roundTexts (i + 1) rs))" by simp
    moreover have "occurInOrder (roundSegments rs) (sep @ join sep (roundTexts (i + 1) rs))"
      using Cons.IH[of "i + 1"] by (rule occurInOrder_prefix)
    ultimately show ?thesis by (rule that)
  qed
  have "occurInOrder (con r # roundSegments rs) (?mid @ con r @ tail)"
    using tail(2) by (rule occurInOrder_cons)
  then have "occurInOrder (pro r # con r # roundSegments rs) (?hdr @ pro r @ ?mid @ con r @ tail)"
    by (rule occurInOrder_cons)
  with tail(1) show ?case by (simp del: occurInOrder.simps)
qed

lemma includes_rebuttal: "includes (rebuttalPrompt topic context x) x"
proof -
  have "rebuttalPrompt topic context x =
      (''Topic: \"'' @ topic @ ''\"\<newline>Context: '' @ context @
        ''\<newline>\<newline>Your opponent said:\<newline>\"'') @ x @
      ''\"\<newline>\<newline>Counter their argument AND strengthen your position.''"
    by (simp add: rebuttalPrompt_def)
  then show ?thesis using includes_middle by metis
qed

lemma includes_empty: "includes s []"
  by (cases s) simp_all

lemma includes_proPrompt: "includes (proPrompt topic context (Some x)) x"
  by (cases "x = []") (simp_all add: proPrompt_def includes_rebuttal includes_empty)

lemma includes_conPrompt: "includes (conPrompt topic context (Some x)) x"
  by (cases "x = []") (simp_all add: conPrompt_def includes_rebuttal includes_empty)

section \<open>Lemmas about batch times\<close>

lemma execCallsTimed_erase:
  "execCalls a ps rs = (fst (execCallsTimed latency a ps rs now),
                        fst (snd (execCallsTimed latency a ps rs now)))"
proof (induction latency a ps rs now rule: execCallsTimed.induct)
  case (1 latency a toolResults now)
  show ?case by simp
next
  case (2 latency a p ps toolResults now)
  show ?case
  proof (cases "functionCall p")
    case None
    then show ?thesis by simp
  next
    case (Some fc)
    let ?a = "a\<lparr>totalCalls := totalCalls a + 1\<rparr>"
    show ?thesis
    proof (cases "callPart ?a p")
      case (Inl e)
      with Some show ?thesis by (simp add: Let_def)
    next
      case (Inr r)
      from "2.IH"[OF Some refl refl Inr] Some Inr show ?thesis by (simp add: Let_def)
    qed
  qed
qed

lemma execCallsTimed_sum:
  "execCallsTimed latency a ps rs now = (Inr rs', a', t) \<Longrightarrow>
     t = now + sum_list (map latency ps)"
proof (induction latency a ps rs now arbitrary: rs' a' t rule: execCallsTimed.induct)
  case (1 latency a toolResults now)
  then show ?case by simp
next
  case (2 latency a p ps toolResults now)
  show ?case
  proof (cases "functionCall p")
    case None
    with "2.prems" show ?thesis by simp
  next
    case (Some fc)
    let ?a = "a\<lparr>totalCalls := totalCalls a + 1\<rparr>"
    show ?thesis
    proof (cases "callPart ?a p")
      case (Inl e)
      with "2.prems" Some show ?thesis by (simp add: Let_def)
    next
      case (Inr r)
      with "2.prems" Some have
        "execCallsTimed latency ?a ps (toolResults @ [r]) (now + latency p) = (Inr rs', a', t)"
        by (simp add: Let_def)
      from "2.IH"[OF Some refl refl Inr this] show ?thesis by simp
    qed
  qed
qed

lemma dispatchAllTimed_erase:
  "dispatchAll gw inherited ps w =
     (map fst (fst (dispatchAllTimed latency gw inherited ps w now)),
      snd (dispatchAllTimed latency gw inherited ps w now))"
proof (induction ps arbitrary: w)
  case Nil
  show ?case by simp
next
  case (Cons p ps)
  obtain r w' where d: "dispatch gw inherited p w = (r, w')" by (cases "dispatch gw inherited p w")
  obtain rs w'' where da: "dispatchAllTimed latency gw inherited ps w' now = (rs, w'')"
    by (cases "dispatchAllTimed latency gw inherited ps w' now")
  from Cons.IH[of w'] da have "dispatchAll gw inherited ps w' = (map fst rs, w'')" by simp
  with d da show ?case by simp
qed

lemma dispatchAllTimed_times:
  "map snd (fst (dispatchAllTimed latency gw inherited ps w now)) = map (\<lambda>p. now + latency p) ps"
proof (induction ps arbitrary: w)
  case Nil
  show ?case by simp
next
  case (Cons p ps)
  obtain r w' where d: "dispatch gw inherited p w = (r, w')" by (cases "dispatch gw inherited p w")
  obtain rs w'' where da: "dispatchAllTimed latency gw inherited ps w' now = (rs, w'')"
    by (cases "dispatchAllTimed latency gw inherited ps w' now")
  from Cons.IH[of w'] da have "map snd rs = map (\<lambda>p. now + latency p) ps" by simp
  with d da show ?case by simp
qed

lemma promiseAll_no_rejection:
  "promiseAll (map fst promises) = Inr vs \<Longrightarrow> rejectedAt promises = []"
proof (induction promises arbitrary: vs rule: rejectedAt.induct)
  case 1
  show ?case by simp
next
  case (2 e t ps)
  then show ?case by simp
next
  case (3 v t ps)
  then show ?case by (auto split: sum.splits)
qed

lemma fold_max_shift: "fold max (map (\<lambda>p. now + f p) ps) (now + m) = now + fold max (map f ps) (m::nat)"
proof (induction ps arbitrary: m)
  case Nil
  show ?case by simp
next
  case (Cons p ps)
  have "max (now + f p) (now + m) = now + max (f p) m" by simp
  with Cons.IH[of "max (f p) m"] show ?case by simp
qed

lemma fold_max_ge: "(m::nat) \<le> fold max xs m \<and> (\<forall>x \<in> set xs. x \<le> fold max xs m)"
proof (induction xs arbitrary: m)
  case Nil
  show ?case by simp
next
  case (Cons x xs)
  from Cons.IH[of "max x m"] show ?case by auto
qed

lemma fold_max_in: "fold max xs (m::nat) = m \<or> fold max xs m \<in> set xs"
proof (induction xs arbitrary: m)
  case Nil
  show ?case by simp
next
  case (Cons x xs)
  from Cons.IH[of "max x m"] show ?case by (auto simp: max_def split: if_splits)
qed

section \<open>Claims\<close>

text \<open>
  C1. For every \<open>maxSteps \<ge> 0\<close> and every gateway that requests at least one tool call
  on each round-trip and never gives a final text answer, with every call of a member of
  the tool map (own or inherited) settling so that the loop can record it (it returns, or
  it throws a value other than \<^verbatim>\<open>null\<close>/\<^verbatim>\<open>undefined\<close> whose \<^verbatim>\<open>message\<close> has a string
  form), \<^verbatim>\<open>run()\<close> returns (the model function is total) a failure result whose
  \<open>steps\<close> field equals \<open>maxSteps\<close>.
\<close>

theorem run_step_budget:
  assumes "0 \<le> maxSteps a"
    and "\<forall>w m h. \<exists>parts. fst (gw w m h) = Inr parts \<and> callsOf parts \<noteq> []"
    and "\<forall>(nm, fn) \<in> set (toolFns a @ inheritedFns a). \<forall>args. catchable (fn args)"
  shows "\<exists>msg. fst (run gw stringify a userMessage context w) = Inr (Failure msg (maxSteps a))"
proof -
  let ?a0 = "a\<lparr>stepCount := 0\<rparr>"
  let ?msg = "UserText (fullMessage stringify userMessage context)"
  obtain r w' where g: "gw w (geminiModel ?a0) (chat ?a0 @ [?msg]) = (r, w')"
    by (cases "gw w (geminiModel ?a0) (chat ?a0 @ [?msg])")
  from assms(2) have "\<exists>parts. fst (gw w (geminiModel ?a0) (chat ?a0 @ [?msg])) = Inr parts
      \<and> callsOf parts \<noteq> []" by blast
  with g obtain parts where p: "r = Inr parts" "callsOf parts \<noteq> []" by auto
  let ?a1 = "?a0\<lparr>chat := chat ?a0 @ [?msg, ModelParts parts]\<rparr>"
  have s: "sendMessage gw ?a0 ?msg w = (Inr parts, ?a1, w')"
    using g p by (simp add: sendMessage_def chatSend_def)
  have le: "stepCount ?a1 \<le> maxSteps ?a1" using assms(1) by simp
  have tools: "toolsCatchable (toolFns ?a1 @ inheritedFns ?a1)"
    using assms(3) by (simp add: toolsCatchable_def)
  from loop_exhausts[OF assms(2) le p(2) tools, of w'] obtain a' w'' where
    "loop gw ?a1 parts w' =
       (Inr (Failure (''Max steps ('' @ showInt (maxSteps ?a1) @ '') reached'') (maxSteps ?a1)), a', w'')"
    by blast
  with s show ?thesis by (simp add: run_def Let_def)
qed

text \<open>
  A budget of two against a gateway that always asks for \<^verbatim>\<open>boom\<close>, a tool that throws
  an \<^verbatim>\<open>Error\<close>: the run ends with the failure result after two steps.
\<close>

theorem run_step_budget_witness:
  "fst (run (answering [toolCallPart ''boom'' (Num 1)]) (\<lambda>v. []) (flakyAgent\<lparr>maxSteps := 2\<rparr>)
          ''go'' Null ())
     = Inr (Failure ''Max steps (2) reached'' 2)"
proof -
  let ?a = "flakyAgent\<lparr>maxSteps := 2\<rparr>"
  have h1: "0 \<le> maxSteps ?a" by simp
  have h2: "\<forall>w m h. \<exists>parts. fst (answering [toolCallPart ''boom'' (Num 1)] w m h) = Inr parts
      \<and> callsOf parts \<noteq> []"
    by (simp add: answering_def callsOf_def toolCallPart_def)
  have h3: "\<forall>(nm, fn) \<in> set (toolFns ?a @ inheritedFns ?a). \<forall>args. catchable (fn args)"
    by (simp add: flakyAgent_def newBaseAgent_def catchable_def newError_def)
  have r: "fst (run (answering [toolCallPart ''boom'' (Num 1)]) (\<lambda>v. []) ?a ''go'' Null ())
     = Inr (Failure ''Max steps (2) reached'' 2)"
    by (simp add: stub_defs flakyAgent_def)
  have e: "\<exists>msg. fst (run (answering [toolCallPart ''boom'' (Num 1)]) (\<lambda>v. []) ?a ''go'' Null ())
     = Inr (Failure msg (maxSteps ?a))"
    using run_step_budget[OF h1 h2 h3, of "\<lambda>v. []" "''go''" Null "()"] .
  show ?thesis by (insert e) (rule r)
qed

text \<open>
  C2, as amended. When one gateway turn contains several tool-invocation requests,
  \<^verbatim>\<open>Orchestrator.run\<close> starts every worker call before awaiting any, so a batch whose
  calls all fulfil ends after the latency of its slowest call; \<^verbatim>\<open>BaseAgent.run\<close> awaits
  each call before starting the next, so a batch that yields its results ends after the
  sum of the latencies of its calls. The timed executors return the results of the untimed
  ones.
\<close>

theorem batch_time_max_or_sum:
  "(promiseAllTimed (fst (dispatchAllTimed latency gw inherited ps w now)) now = (Inr rs, t) \<longrightarrow>
      t = now + slowest latency ps
      \<and> promiseAll (fst (dispatchAll gw inherited ps w)) = Inr rs)
   \<and> (execCallsTimed latency a ps [] now = (Inr rs', a', t') \<longrightarrow>
      t' = now + sum_list (map latency ps)
      \<and> execCalls a ps [] = (Inr rs', a'))
   \<and> (\<forall>p \<in> set ps. latency p \<le> slowest latency ps)
   \<and> (ps \<noteq> [] \<longrightarrow> (\<exists>p \<in> set ps. slowest latency ps = latency p))"
proof (intro conjI impI)
  assume h: "promiseAllTimed (fst (dispatchAllTimed latency gw inherited ps w now)) now = (Inr rs, t)"
  let ?P = "fst (dispatchAllTimed latency gw inherited ps w now)"
  from h have pa: "promiseAll (map fst ?P) = Inr rs" by (simp add: promiseAllTimed_def)
  from promiseAll_no_rejection[OF pa] h have "t = fold max (map snd ?P) now"
    by (simp add: promiseAllTimed_def)
  also have "\<dots> = fold max (map (\<lambda>p. now + latency p) ps) (now + 0)"
    by (simp add: dispatchAllTimed_times)
  also have "\<dots> = now + slowest latency ps"
    unfolding slowest_def by (rule fold_max_shift)
  finally show "t = now + slowest latency ps" .
  from pa dispatchAllTimed_erase[of gw inherited ps w latency now]
  show "promiseAll (fst (dispatchAll gw inherited ps w)) = Inr rs" by simp
next
  assume h: "execCallsTimed latency a ps [] now = (Inr rs', a', t')"
  from execCallsTimed_sum[OF h] show "t' = now + sum_list (map latency ps)" .
  from execCallsTimed_erase[of a ps "[]" latency now] h
  show "execCalls a ps [] = (Inr rs', a')" by simp
next
  show "\<forall>p \<in> set ps. latency p \<le> slowest latency ps"
    using fold_max_ge[of 0 "map latency ps"] by (simp add: slowest_def)
next
  assume "ps \<noteq> []"
  then obtain q qs where ps: "ps = q # qs" by (cases ps) auto
  from fold_max_in[of "map latency ps" 0]
  consider "slowest latency ps = 0" | "slowest latency ps \<in> set (map latency ps)"
    by (auto simp: slowest_def)
  then show "\<exists>p \<in> set ps. slowest latency ps = latency p"
  proof cases
    case 1
    moreover have "latency q \<le> slowest latency ps"
      using fold_max_ge[of 0 "map latency ps"] ps by (simp add: slowest_def)
    ultimately have "slowest latency ps = latency q" by simp
    with ps show ?thesis by auto
  next
    case 2
    then show ?thesis by auto
  qed
qed

theorem batch_time_max_or_sum_witness:
  "promiseAllTimed (fst (dispatchAllTimed delay numbered []
       [workerCallPart ''code_agent'' ''a'', workerCallPart ''math_agent'' ''bbb'',
        workerCallPart ''ux_agent'' ''cc''] 0 1000)) 1000
     = (Inr [FunctionResponse ''call_worker'' (Obj [(''worker'', Str ''code_agent''), (''result'', Str ''reply 0'')]),
             FunctionResponse ''call_worker'' (Obj [(''worker'', Str ''math_agent''), (''result'', Str ''reply 1'')]),
             FunctionResponse ''call_worker'' (Obj [(''worker'', Str ''ux_agent''), (''result'', Str ''reply 2'')])],
        1300)
   \<and> slowest delay [workerCallPart ''code_agent'' ''a'', workerCallPart ''math_agent'' ''bbb'',
        workerCallPart ''ux_agent'' ''cc''] = 300
   \<and> execCallsTimed delay (echoAgent 5)
        [toolCallPart ''echo'' (Num 100), toolCallPart ''echo'' (Num 300)] [] 1000
     = (Inr [FunctionResponse ''echo'' (Num 100), FunctionResponse ''echo'' (Num 300)],
        (echoAgent 5)\<lparr>totalCalls := 2\<rparr>, 1400)"
proof -
  let ?qs = "[workerCallPart ''code_agent'' ''a'', workerCallPart ''math_agent'' ''bbb'',
        workerCallPart ''ux_agent'' ''cc'']"
  let ?rs = "[FunctionResponse ''call_worker'' (Obj [(''worker'', Str ''code_agent''), (''result'', Str ''reply 0'')]),
             FunctionResponse ''call_worker'' (Obj [(''worker'', Str ''math_agent''), (''result'', Str ''reply 1'')]),
             FunctionResponse ''call_worker'' (Obj [(''worker'', Str ''ux_agent''), (''result'', Str ''reply 2'')])]"
  let ?ps = "[toolCallPart ''echo'' (Num 100), toolCallPart ''echo'' (Num 300)]"
  let ?rs' = "[FunctionResponse ''echo'' (Num 100), FunctionResponse ''echo'' (Num 300)]"
  have o: "promiseAllTimed (fst (dispatchAllTimed delay numbered [] ?qs 0 1000)) 1000 = (Inr ?rs, 1300)"
    by (simp add: promiseAllTimed_def numbered_def workerCallPart_def toolCallPart_def delay_def
        dispatch_def workers_def callWorker_def generateContent_def textOf_def textPart_def)
  have b: "execCallsTimed delay (echoAgent 5) ?ps [] 1000
      = (Inr ?rs', (echoAgent 5)\<lparr>totalCalls := 2\<rparr>, 1400)"
    by (simp add: stub_defs delay_def)
  have sl: "slowest delay ?qs = 300"
    by (simp add: slowest_def workerCallPart_def toolCallPart_def delay_def)
  have "1300 = 1000 + slowest delay ?qs"
    using batch_time_max_or_sum[where latency = delay and gw = numbered and inherited = "[]" and ps = ?qs
        and w = 0 and now = 1000 and rs = ?rs and t = 1300, THEN conjunct1, THEN mp, OF o]
    by blast
  moreover have "1400 = 1000 + sum_list (map delay ?ps)"
    using batch_time_max_or_sum[where latency = delay and ps = ?ps and a = "echoAgent 5"
        and now = 1000 and rs' = ?rs' and a' = "(echoAgent 5)\<lparr>totalCalls := 2\<rparr>" and t' = 1400,
        THEN conjunct2, THEN conjunct1, THEN mp, OF b]
    by blast
  ultimately show ?thesis using o b sl by simp
qed

text \<open>
  C2 as stated fails in \<^verbatim>\<open>BaseAgent.run\<close>: three calls taking 100, 50 and 200 end at
  350, the sum, not at 200, the slowest.
\<close>

theorem base_agent_batch_is_serial:
  "execCallsTimed delay (echoAgent 5)
      [toolCallPart ''echo'' (Num 100), toolCallPart ''echo'' (Num 50),
       toolCallPart ''echo'' (Num 200)] [] 0
     = (Inr [FunctionResponse ''echo'' (Num 100), FunctionResponse ''echo'' (Num 50),
             FunctionResponse ''echo'' (Num 200)],
        (echoAgent 5)\<lparr>totalCalls := 3\<rparr>, 350)
   \<and> slowest delay [toolCallPart ''echo'' (Num 100), toolCallPart ''echo'' (Num 50),
       toolCallPart ''echo'' (Num 200)] = 200"
  by (simp add: stub_defs delay_def slowest_def)

text \<open>
  C3, as amended. In \<^verbatim>\<open>BaseAgent.run\<close>, for every batch of tool-invocation requests of
  one gateway turn in which every call settles by returning or by throwing a value other
  than \<^verbatim>\<open>null\<close>/\<^verbatim>\<open>undefined\<close> whose \<^verbatim>\<open>message\<close> has a string form: the batch
  produces one result per request, in order, and counts every call; a call that returns
  has its value in its slot, a call that throws (an unknown name included) has the payload
  \<^verbatim>\<open>{error: err.message, tool: name}\<close> in its slot, whatever its siblings do; no exception
  leaves the batch. In \<^verbatim>\<open>Orchestrator.run\<close> a worker call is not wrapped: when any call
  of the batch rejects, \<^verbatim>\<open>run\<close> rejects.
\<close>

theorem tool_fault_isolated:
  "((\<forall>p \<in> set ps. \<exists>nm args. functionCall p = Some (FunctionCall nm args)
         \<and> catchable (invoke a nm args)) \<longrightarrow>
      (\<exists>rs. execCalls a ps [] = (Inr rs, a\<lparr>totalCalls := totalCalls a + int (length ps)\<rparr>)
         \<and> length rs = length ps \<and>
         (\<forall>k < length ps. \<forall>nm args. functionCall (ps ! k) = Some (FunctionCall nm args) \<longrightarrow>
            rs ! k = (case invoke a nm args of
                        Returns v \<Rightarrow> FunctionResponse nm v
                      | Throws err \<Rightarrow>
                          FunctionResponse nm
                            (Obj [(''error'', getProp err ''message''), (''tool'', Str nm)])))))
   \<and> (iteration < 5 \<and> callsOf parts \<noteq> []
        \<and> Inl e \<in> set (fst (dispatchAll gw inherited (callsOf parts) w)) \<longrightarrow>
      (\<exists>e'. fst (orchestratorLoop gw inherited history parts iteration w) = Inl e'))"
proof (intro conjI impI)
  assume h: "\<forall>p \<in> set ps. \<exists>nm args. functionCall p = Some (FunctionCall nm args)
         \<and> catchable (invoke a nm args)"
  have ok: "\<forall>p \<in> set ps. \<exists>r. callPart a p = Inr r"
  proof
    fix p assume "p \<in> set ps"
    with h obtain nm args where f: "functionCall p = Some (FunctionCall nm args)"
      and c: "catchable (invoke a nm args)" by blast
    from callTool_payload[OF c] f show "\<exists>r. callPart a p = Inr r"
      by (simp add: callPart_def)
  qed
  from execCalls_all_ok[OF ok, of "[]"] obtain rs where
    e: "execCalls a ps [] = (Inr rs, a\<lparr>totalCalls := totalCalls a + int (length ps)\<rparr>)"
    by blast
  from execCalls_pointwise[OF e] have len: "length rs = length ps"
    and pw: "\<forall>k < length ps. callPart a (ps ! k) = Inr (rs ! k)" by auto
  have "\<forall>k < length ps. \<forall>nm args. functionCall (ps ! k) = Some (FunctionCall nm args) \<longrightarrow>
            rs ! k = (case invoke a nm args of
                        Returns v \<Rightarrow> FunctionResponse nm v
                      | Throws err \<Rightarrow>
                          FunctionResponse nm
                            (Obj [(''error'', getProp err ''message''), (''tool'', Str nm)]))"
  proof (intro allI impI)
    fix k nm args
    assume k: "k < length ps" and f: "functionCall (ps ! k) = Some (FunctionCall nm args)"
    from k have "ps ! k \<in> set ps" by simp
    with h f have c: "catchable (invoke a nm args)" by fastforce
    from pw k have "callPart a (ps ! k) = Inr (rs ! k)" by simp
    with f have "callTool a nm args = Inr (rs ! k)" by (simp add: callPart_def)
    with callTool_payload[OF c]
    show "rs ! k = (case invoke a nm args of
                        Returns v \<Rightarrow> FunctionResponse nm v
                      | Throws err \<Rightarrow>
                          FunctionResponse nm
                            (Obj [(''error'', getProp err ''message''), (''tool'', Str nm)]))"
      by simp
  qed
  with e len show "\<exists>rs. execCalls a ps [] = (Inr rs, a\<lparr>totalCalls := totalCalls a + int (length ps)\<rparr>)
         \<and> length rs = length ps \<and>
         (\<forall>k < length ps. \<forall>nm args. functionCall (ps ! k) = Some (FunctionCall nm args) \<longrightarrow>
            rs ! k = (case invoke a nm args of
                        Returns v \<Rightarrow> FunctionResponse nm v
                      | Throws err \<Rightarrow>
                          FunctionResponse nm
                            (Obj [(''error'', getProp err ''message''), (''tool'', Str nm)])))"
    by blast
next
  assume h: "iteration < 5 \<and> callsOf parts \<noteq> []
        \<and> Inl e \<in> set (fst (dispatchAll gw inherited (callsOf parts) w))"
  obtain promises w1 where d: "dispatchAll gw inherited (callsOf parts) w = (promises, w1)"
    by (cases "dispatchAll gw inherited (callsOf parts) w")
  with h have "Inl e \<in> set promises" by simp
  from promiseAll_rejects[OF this] obtain e' where "promiseAll promises = Inl e'" by blast
  with h d have "fst (orchestratorLoop gw inherited history parts iteration w) = Inl e'"
    by (subst orchestratorLoop.simps) (simp add: Let_def)
  then show "\<exists>e'. fst (orchestratorLoop gw inherited history parts iteration w) = Inl e'" by blast
qed

text \<open>
  A batch asking for \<^verbatim>\<open>echo\<close>, the throwing \<^verbatim>\<open>boom\<close> and the inherited
  \<^verbatim>\<open>toString\<close>: three results, the error payload in the middle; and an orchestrator
  batch whose first worker call fails.
\<close>

theorem tool_fault_isolated_witness:
  "(\<exists>rs. execCalls flakyAgent
        [toolCallPart ''echo'' (Num 1), toolCallPart ''boom'' Null, toolCallPart ''toString'' Null] []
        = (Inr rs, flakyAgent\<lparr>totalCalls := 3\<rparr>)
      \<and> length rs = 3
      \<and> rs ! 0 = FunctionResponse ''echo'' (Num 1)
      \<and> rs ! 1 = FunctionResponse ''boom'' (Obj [(''error'', Str ''kaboom''), (''tool'', Str ''boom'')])
      \<and> rs ! 2 = FunctionResponse ''toString'' (Str ''[object Undefined]''))
   \<and> (\<exists>e'. fst (orchestratorLoop scripted [] []
               [workerCallPart ''code_agent'' ''write'', workerCallPart ''math_agent'' ''2+2'']
               0 [Inl (GatewayFault ''quota''), Inr [textPart ''4'']]) = Inl e')"
proof -
  let ?ps = "[toolCallPart ''echo'' (Num 1), toolCallPart ''boom'' Null, toolCallPart ''toString'' Null]"
  let ?parts = "[workerCallPart ''code_agent'' ''write'', workerCallPart ''math_agent'' ''2+2'']"
  let ?w = "[Inl (GatewayFault ''quota''), Inr [textPart ''4'']] :: (exn + part list) list"
  note t = tool_fault_isolated[where a = flakyAgent and ps = ?ps and gw = scripted
      and parts = ?parts and w = ?w and iteration = 0 and e = "GatewayFault ''quota''"
      and history = "[]" and inherited = "[]"]
  have h1: "\<forall>p \<in> set ?ps. \<exists>nm args. functionCall p = Some (FunctionCall nm args)
         \<and> catchable (invoke flakyAgent nm args)"
    by (simp add: toolCallPart_def invoke_def flakyAgent_def newBaseAgent_def catchable_def
        newError_def)
  have tc: "totalCalls flakyAgent + int (length ?ps) = 3"
    by (simp add: flakyAgent_def newBaseAgent_def)
  from t[THEN conjunct1, THEN mp, OF h1] obtain rs where
    r: "execCalls flakyAgent ?ps [] = (Inr rs, flakyAgent\<lparr>totalCalls := 3\<rparr>)"
       "length rs = length ?ps"
       "\<forall>k < length ?ps. \<forall>nm args. functionCall (?ps ! k) = Some (FunctionCall nm args) \<longrightarrow>
            rs ! k = (case invoke flakyAgent nm args of
                        Returns v \<Rightarrow> FunctionResponse nm v
                      | Throws err \<Rightarrow>
                          FunctionResponse nm
                            (Obj [(''error'', getProp err ''message''), (''tool'', Str nm)]))"
    unfolding tc by blast
  from r(3) have "0 < length ?ps \<longrightarrow> functionCall (?ps ! 0) = Some (FunctionCall ''echo'' (Num 1)) \<longrightarrow>
      rs ! 0 = (case invoke flakyAgent ''echo'' (Num 1) of
                        Returns v \<Rightarrow> FunctionResponse ''echo'' v
                      | Throws err \<Rightarrow>
                          FunctionResponse ''echo''
                            (Obj [(''error'', getProp err ''message''), (''tool'', Str ''echo'')]))"
    by blast
  then have r0: "rs ! 0 = FunctionResponse ''echo'' (Num 1)"
    by (simp add: toolCallPart_def invoke_def flakyAgent_def newBaseAgent_def)
  from r(3) have "1 < length ?ps \<longrightarrow> functionCall (?ps ! 1) = Some (FunctionCall ''boom'' Null) \<longrightarrow>
      rs ! 1 = (case invoke flakyAgent ''boom'' Null of
                        Returns v \<Rightarrow> FunctionResponse ''boom'' v
                      | Throws err \<Rightarrow>
                          FunctionResponse ''boom''
                            (Obj [(''error'', getProp err ''message''), (''tool'', Str ''boom'')]))"
    by blast
  then have r1: "rs ! 1 = FunctionResponse ''boom'' (Obj [(''error'', Str ''kaboom''), (''tool'', Str ''boom'')])"
    by (simp add: toolCallPart_def invoke_def flakyAgent_def newBaseAgent_def newError_def)
  from r(3) have "2 < length ?ps \<longrightarrow> functionCall (?ps ! 2) = Some (FunctionCall ''toString'' Null) \<longrightarrow>
      rs ! 2 = (case invoke flakyAgent ''toString'' Null of
                        Returns v \<Rightarrow> FunctionResponse ''toString'' v
                      | Throws err \<Rightarrow>
                          FunctionResponse ''toString''
                            (Obj [(''error'', getProp err ''message''), (''tool'', Str ''toString'')]))"
    by blast
  then have r2: "rs ! 2 = FunctionResponse ''toString'' (Str ''[object Undefined]'')"
    by (simp add: toolCallPart_def invoke_def flakyAgent_def newBaseAgent_def)
  from r(2) have len: "length rs = 3" by simp
  have h2: "(0::int) < 5 \<and> callsOf ?parts \<noteq> []
        \<and> Inl (GatewayFault ''quota'') \<in> set (fst (dispatchAll scripted [] (callsOf ?parts) ?w))"
    by (simp add: stub_defs workerCallPart_def dispatch_def workers_def callWorker_def
        generateContent_def)
  from t[THEN conjunct2, THEN mp, OF h2] r(1) len r0 r1 r2 show ?thesis by blast
qed

text \<open>
  C3 as stated fails in \<^verbatim>\<open>Orchestrator.run\<close>: the model requests two workers, the first
  worker's model call fails, and \<^verbatim>\<open>run\<close> rejects with that fault although the second
  worker's call, taken alone, yields its normal result.
\<close>

theorem worker_fault_escapes:
  "fst (orchestratorRun scripted [] ''plan''
          [Inr [workerCallPart ''code_agent'' ''write'', workerCallPart ''math_agent'' ''2+2''],
           Inl (GatewayFault ''quota''), Inr [textPart ''4'']])
     = Inl (GatewayFault ''quota'')
   \<and> fst (dispatch scripted [] (workerCallPart ''math_agent'' ''2+2'') [Inr [textPart ''4'']])
     = Inr (FunctionResponse ''call_worker''
              (Obj [(''worker'', Str ''math_agent''), (''result'', Str ''4'')]))"
  by (simp add: stub_defs orchestratorRun_def workerCallPart_def dispatch_def workers_def
      callWorker_def generateContent_def)

text \<open>
  C4, as amended. A request whose name the agent's tool map neither holds nor inherits
  does not crash \<^verbatim>\<open>BaseAgent.run\<close>: the call yields the payload
  \<^verbatim>\<open>{error: 'Unknown tool: "<name>". Available: <registered names>', tool: <name>}\<close>
  (the name in double quotes); when the request is the \<open>k\<close>-th of a response inspected
  within the step budget and no call of that response escapes its \<^verbatim>\<open>catch\<close> block, the
  results of all calls are sent to the model as one message, the payload in slot \<open>k\<close>,
  and the loop goes on with the model's next response (a gateway fault on that message
  rejects the run). In \<^verbatim>\<open>Orchestrator.run\<close> the
  request's name is not looked at; a \<^verbatim>\<open>worker\<close> argument that is a string and no key
  of the \<^verbatim>\<open>workers\<close> table, own or inherited (with a string task), yields
  \<^verbatim>\<open>{worker, error: "Unknown worker: <worker>"}\<close> under the name \<^verbatim>\<open>call_worker\<close>, and no
  model call is made for it.
\<close>

theorem unknown_tool_is_data:
  "(map_of (toolFns a @ inheritedFns a) nm = None \<longrightarrow>
      callTool a nm args =
        Inr (FunctionResponse nm
               (Obj [(''error'', Str (unknownToolMessage a nm)), (''tool'', Str nm)]))
      \<and> unknownToolMessage a nm =
          ''Unknown tool: \"'' @ nm @ ''\". Available: '' @ join '', '' (map fst (toolFns a))
      \<and> includes (unknownToolMessage a nm) (''Unknown tool: \"'' @ nm @ ''\"'')
      \<and> (stepCount a < maxSteps a \<and> k < length (callsOf parts)
            \<and> functionCall (callsOf parts ! k) = Some (FunctionCall nm args)
            \<and> (\<forall>p \<in> set (callsOf parts). \<exists>r. callPart a p = Inr r) \<longrightarrow>
          (\<exists>rs. length rs = length (callsOf parts)
             \<and> (\<forall>j < length (callsOf parts). callPart a (callsOf parts ! j) = Inr (rs ! j))
             \<and> rs ! k = FunctionResponse nm
                           (Obj [(''error'', Str (unknownToolMessage a nm)), (''tool'', Str nm)])
             \<and> loop gw a parts w =
                 (case sendMessage gw
                         (a\<lparr>stepCount := stepCount a + 1,
                             totalCalls := totalCalls a + int (length (callsOf parts))\<rparr>)
                         (FunctionResponses rs) w of
                    (Inl e, a3, w') \<Rightarrow> (Inl e, a3, w')
                  | (Inr parts', a3, w') \<Rightarrow> loop gw a3 parts' w'))))
   \<and> (args' \<noteq> Undefined \<and> args' \<noteq> Null \<and> getProp args' ''task'' = Str task
        \<and> getProp args' ''worker'' = Str key
        \<and> map_of workers key = None \<and> map_of inherited key = None \<longrightarrow>
      dispatch gw' inherited (toolCallPart nm' args') w' =
        (Inr (FunctionResponse ''call_worker''
                (Obj [(''worker'', Str key),
                      (''error'', Str (''Unknown worker: '' @ key))])),
         w'))"
proof (intro conjI impI)
  assume u: "map_of (toolFns a @ inheritedFns a) nm = None"
  show "callTool a nm args =
        Inr (FunctionResponse nm (Obj [(''error'', Str (unknownToolMessage a nm)), (''tool'', Str nm)]))"
    by (rule callTool_unknown[OF u])
  show "unknownToolMessage a nm =
          ''Unknown tool: \"'' @ nm @ ''\". Available: '' @ join '', '' (map fst (toolFns a))"
    by (simp add: unknownToolMessage_def)
  have "unknownToolMessage a nm = [] @ (''Unknown tool: \"'' @ nm @ ''\"'') @
          (''. Available: '' @ join '', '' (map fst (toolFns a)))"
    by (simp add: unknownToolMessage_def)
  then show "includes (unknownToolMessage a nm) (''Unknown tool: \"'' @ nm @ ''\"'')"
    using includes_middle by metis
next
  assume u: "map_of (toolFns a @ inheritedFns a) nm = None"
    and h: "stepCount a < maxSteps a \<and> k < length (callsOf parts)
            \<and> functionCall (callsOf parts ! k) = Some (FunctionCall nm args)
            \<and> (\<forall>p \<in> set (callsOf parts). \<exists>r. callPart a p = Inr r)"
  from h have lt: "stepCount a < maxSteps a" and k: "k < length (callsOf parts)"
    and fc: "functionCall (callsOf parts ! k) = Some (FunctionCall nm args)"
    and ok: "\<forall>p \<in> set (callsOf parts). \<exists>r. callPart a p = Inr r" by simp_all
  from k have ne: "callsOf parts \<noteq> []" by auto
  from loop_batch_step[OF lt ne ok, of gw w] obtain rs where
    rs: "length rs = length (callsOf parts)"
      "\<forall>j < length (callsOf parts). callPart a (callsOf parts ! j) = Inr (rs ! j)"
      "loop gw a parts w =
          (case sendMessage gw
                  (a\<lparr>stepCount := stepCount a + 1,
                      totalCalls := totalCalls a + int (length (callsOf parts))\<rparr>)
                  (FunctionResponses rs) w of
             (Inl e, a3, w') \<Rightarrow> (Inl e, a3, w')
           | (Inr parts', a3, w') \<Rightarrow> loop gw a3 parts' w')"
    by blast
  from rs(2) k have "callPart a (callsOf parts ! k) = Inr (rs ! k)" by simp
  with fc have "callTool a nm args = Inr (rs ! k)" by (simp add: callPart_def)
  with callTool_unknown[OF u, of args]
  have "rs ! k = FunctionResponse nm
                   (Obj [(''error'', Str (unknownToolMessage a nm)), (''tool'', Str nm)])"
    by simp
  with rs show "\<exists>rs. length rs = length (callsOf parts)
             \<and> (\<forall>j < length (callsOf parts). callPart a (callsOf parts ! j) = Inr (rs ! j))
             \<and> rs ! k = FunctionResponse nm
                           (Obj [(''error'', Str (unknownToolMessage a nm)), (''tool'', Str nm)])
             \<and> loop gw a parts w =
                 (case sendMessage gw
                         (a\<lparr>stepCount := stepCount a + 1,
                             totalCalls := totalCalls a + int (length (callsOf parts))\<rparr>)
                         (FunctionResponses rs) w of
                    (Inl e, a3, w') \<Rightarrow> (Inl e, a3, w')
                  | (Inr parts', a3, w') \<Rightarrow> loop gw a3 parts' w')"
    by blast
next
  assume h: "args' \<noteq> Undefined \<and> args' \<noteq> Null \<and> getProp args' ''task'' = Str task
        \<and> getProp args' ''worker'' = Str key
        \<and> map_of workers key = None \<and> map_of inherited key = None"
  then show "dispatch gw' inherited (toolCallPart nm' args') w' =
        (Inr (FunctionResponse ''call_worker''
                (Obj [(''worker'', Str key),
                      (''error'', Str (''Unknown worker: '' @ key))])),
         w')"
    by (simp add: dispatch_def toolCallPart_def Let_def)
qed

text \<open>
  A response asking for \<^verbatim>\<open>echo\<close>, the unregistered \<^verbatim>\<open>nope\<close> and \<^verbatim>\<open>echo\<close> again: the
  run goes on to the model's next response and ends with its text.
\<close>

theorem unknown_tool_is_data_witness:
  "callTool (echoAgent 5) ''nope'' Null =
     Inr (FunctionResponse ''nope''
            (Obj [(''error'', Str ''Unknown tool: \"nope\". Available: echo''),
                  (''tool'', Str ''nope'')]))
   \<and> includes ''Unknown tool: \"nope\". Available: echo'' ''Unknown tool: \"nope\"''
   \<and> fst (loop (answering [textPart ''Sorry, no such tool.'']) (echoAgent 5)
            [toolCallPart ''echo'' (Num 1), textPart ''Let me try.'', toolCallPart ''nope'' Null,
             toolCallPart ''echo'' (Num 3)] ())
       = Inr (Success ''Sorry, no such tool.'' 2)
   \<and> dispatch scripted [] (workerCallPart ''nope'' ''x'') []
       = (Inr (FunctionResponse ''call_worker''
                 (Obj [(''worker'', Str ''nope''), (''error'', Str ''Unknown worker: nope'')])),
          [])"
proof -
  let ?a = "echoAgent 5"
  let ?gw = "answering [textPart ''Sorry, no such tool.'']"
  let ?parts = "[toolCallPart ''echo'' (Num 1), textPart ''Let me try.'', toolCallPart ''nope'' Null,
             toolCallPart ''echo'' (Num 3)]"
  let ?args = "Obj [(''worker'', Str ''nope''), (''task'', Str ''x'')]"
  have u: "map_of (toolFns ?a @ inheritedFns ?a) ''nope'' = None"
    by (simp add: stub_defs)
  have m: "unknownToolMessage ?a ''nope'' = ''Unknown tool: \"nope\". Available: echo''"
    by (simp add: stub_defs)
  have c: "callsOf ?parts = [toolCallPart ''echo'' (Num 1), toolCallPart ''nope'' Null,
             toolCallPart ''echo'' (Num 3)]"
    by (simp add: callsOf_def toolCallPart_def textPart_def)
  have h: "stepCount ?a < maxSteps ?a \<and> 1 < length (callsOf ?parts)
            \<and> functionCall (callsOf ?parts ! 1) = Some (FunctionCall ''nope'' Null)
            \<and> (\<forall>p \<in> set (callsOf ?parts). \<exists>r. callPart ?a p = Inr r)"
    unfolding c by (simp add: stub_defs)
  note t = unknown_tool_is_data[where a = ?a and nm = "''nope''" and args = Null
      and gw = ?gw and w = "()" and parts = ?parts and k = 1
      and args' = ?args and task = "''x''" and key = "''nope''" and inherited = "[]"
      and gw' = scripted and nm' = "''call_worker''" and w' = "[]"]
  note b = t[THEN conjunct1, THEN mp, OF u]
  from b m
  have c1: "callTool ?a ''nope'' Null =
     Inr (FunctionResponse ''nope''
            (Obj [(''error'', Str ''Unknown tool: \"nope\". Available: echo''),
                  (''tool'', Str ''nope'')]))"
    and c2: "includes ''Unknown tool: \"nope\". Available: echo'' ''Unknown tool: \"nope\"''"
    by simp_all
  from b[THEN conjunct2, THEN conjunct2, THEN conjunct2, THEN mp, OF h] obtain rs where
    "loop ?gw ?a ?parts () =
       (case sendMessage ?gw
               (?a\<lparr>stepCount := stepCount ?a + 1,
                    totalCalls := totalCalls ?a + int (length (callsOf ?parts))\<rparr>)
               (FunctionResponses rs) () of
          (Inl e, a3, w') \<Rightarrow> (Inl e, a3, w')
        | (Inr parts', a3, w') \<Rightarrow> loop ?gw a3 parts' w')"
    by blast
  then have c3: "fst (loop ?gw ?a ?parts ()) = Inr (Success ''Sorry, no such tool.'' 2)"
    by (simp add: stub_defs)
  have h': "?args \<noteq> Undefined \<and> ?args \<noteq> Null \<and> getProp ?args ''task'' = Str ''x''
        \<and> getProp ?args ''worker'' = Str ''nope''
        \<and> map_of workers ''nope'' = None \<and> map_of [] ''nope'' = None"
    by (simp add: workers_def)
  from t[THEN conjunct2, THEN mp, OF h']
  have c4: "dispatch scripted [] (workerCallPart ''nope'' ''x'') []
       = (Inr (FunctionResponse ''call_worker''
                 (Obj [(''worker'', Str ''nope''), (''error'', Str ''Unknown worker: nope'')])),
          [])"
    by (simp add: workerCallPart_def)
  from c1 c2 c3 c4 show ?thesis by (intro conjI)
qed

text \<open>
  C4 as stated fails on the text: for the unregistered name \<^verbatim>\<open>nope\<close> neither payload
  contains \<^verbatim>\<open>Unknown tool: nope\<close>. \<^verbatim>\<open>BaseAgent.run\<close> puts the name in double quotes,
  and \<^verbatim>\<open>Orchestrator.run\<close> says \<^verbatim>\<open>Unknown worker: nope\<close>.
\<close>

theorem unknown_tool_text_differs:
  "callTool (echoAgent 5) ''nope'' Null =
     Inr (FunctionResponse ''nope''
            (Obj [(''error'', Str ''Unknown tool: \"nope\". Available: echo''),
                  (''tool'', Str ''nope'')]))
   \<and> \<not> includes ''Unknown tool: \"nope\". Available: echo'' ''Unknown tool: nope''
   \<and> dispatch scripted [] (workerCallPart ''nope'' ''x'') []
       = (Inr (FunctionResponse ''call_worker''
                 (Obj [(''worker'', Str ''nope''), (''error'', Str ''Unknown worker: nope'')])),
          [])
   \<and> \<not> includes ''Unknown worker: nope'' ''Unknown tool: nope''"
  by (simp add: stub_defs workerCallPart_def dispatch_def workers_def)

text \<open>
  C5. For every list of tool-invocation requests executed in one gateway turn, the list
  of results sent back to the gateway has the same length and order as the requests,
  result \<open>k\<close> being the outcome of request \<open>k\<close>. In \<^verbatim>\<open>BaseAgent.run\<close>, when a response
  is inspected within the step budget and each of its calls yields an outcome, the next
  request the gateway receives is the conversation followed by the message holding
  exactly these outcomes in request order. In \<^verbatim>\<open>Orchestrator.run\<close>, when
  \<^verbatim>\<open>Promise.all\<close> over the mapped calls fulfils, its values are the outcomes of the
  calls in request order (each call started in the gateway state its predecessors left),
  and the next request the gateway receives after the workers' own requests is the
  conversation followed by the message holding exactly these values.
\<close>

theorem batch_results_in_request_order:
  "(stepCount a < maxSteps a \<and> callsOf parts \<noteq> []
      \<and> (\<forall>p \<in> set (callsOf parts). \<exists>r. callPart a p = Inr r) \<longrightarrow>
      (\<exists>rs rest.
          snd (snd (snd (loop (recording gw) a parts (w, L))))
            = L @ (geminiModel a, chat a @ [FunctionResponses rs]) # rest
        \<and> length rs = length (callsOf parts)
        \<and> (\<forall>k < length (callsOf parts). callPart a (callsOf parts ! k) = Inr (rs ! k))))
   \<and> (iteration < 5 \<and> callsOf parts' \<noteq> []
        \<and> dispatchAll (recording gw') inherited (callsOf parts') (w', L') = (promises, (w1, L1))
        \<and> promiseAll promises = Inr rs' \<longrightarrow>
      length rs' = length (callsOf parts')
      \<and> (\<forall>k < length (callsOf parts').
            fst (dispatch (recording gw') inherited (callsOf parts' ! k)
                   (startStates (recording gw') inherited (callsOf parts') (w', L') ! k))
              = Inr (rs' ! k))
      \<and> (\<exists>rest.
            snd (snd (orchestratorLoop (recording gw') inherited history parts' iteration (w', L')))
              = L1 @ (orchestratorModel, history @ [FunctionResponses rs']) # rest))"
proof (intro conjI impI)
  assume h: "stepCount a < maxSteps a \<and> callsOf parts \<noteq> []
      \<and> (\<forall>p \<in> set (callsOf parts). \<exists>r. callPart a p = Inr r)"
  then have lt: "stepCount a < maxSteps a" and ne: "callsOf parts \<noteq> []"
    and ok: "\<forall>p \<in> set (callsOf parts). \<exists>r. callPart a p = Inr r" by simp_all
  let ?a2 = "a\<lparr>stepCount := stepCount a + 1,
                totalCalls := totalCalls a + int (length (callsOf parts))\<rparr>"
  from loop_batch_step[OF lt ne ok, of "recording gw" "(w, L)"] obtain rs where
    len: "length rs = length (callsOf parts)"
    and pw: "\<forall>k < length (callsOf parts). callPart a (callsOf parts ! k) = Inr (rs ! k)"
    and eq: "loop (recording gw) a parts (w, L) =
          (case sendMessage (recording gw) ?a2 (FunctionResponses rs) (w, L) of
             (Inl e, a3, w') \<Rightarrow> (Inl e, a3, w')
           | (Inr parts', a3, w') \<Rightarrow> loop (recording gw) a3 parts' w')"
    by blast
  let ?req = "(geminiModel a, chat a @ [FunctionResponses rs])"
  obtain r wn where g: "gw w (geminiModel a) (chat a @ [FunctionResponses rs]) = (r, wn)"
    by (cases "gw w (geminiModel a) (chat a @ [FunctionResponses rs])")
  have "\<exists>rest. snd (snd (snd (loop (recording gw) a parts (w, L)))) = L @ ?req # rest"
  proof (cases r)
    case (Inl e)
    with g have "sendMessage (recording gw) ?a2 (FunctionResponses rs) (w, L)
        = (Inl e, ?a2, (wn, L @ [?req]))"
      by (simp add: sendMessage_def chatSend_def recording_def)
    with eq show ?thesis by simp
  next
    case (Inr ps)
    let ?a3 = "?a2\<lparr>chat := chat a @ [FunctionResponses rs, ModelParts ps]\<rparr>"
    from g Inr have "sendMessage (recording gw) ?a2 (FunctionResponses rs) (w, L)
        = (Inr ps, ?a3, (wn, L @ [?req]))"
      by (simp add: sendMessage_def chatSend_def recording_def)
    with eq have l: "loop (recording gw) a parts (w, L)
        = loop (recording gw) ?a3 ps (wn, L @ [?req])" by simp
    from loop_log_grows[OF recording_appends, of gw ?a3 ps "(wn, L @ [?req])"]
    obtain more where "snd (snd (snd (loop (recording gw) ?a3 ps (wn, L @ [?req]))))
        = (L @ [?req]) @ more" by auto
    with l show ?thesis by simp
  qed
  with len pw show "\<exists>rs rest.
          snd (snd (snd (loop (recording gw) a parts (w, L))))
            = L @ (geminiModel a, chat a @ [FunctionResponses rs]) # rest
        \<and> length rs = length (callsOf parts)
        \<and> (\<forall>k < length (callsOf parts). callPart a (callsOf parts ! k) = Inr (rs ! k))"
    by blast
next
  assume h: "iteration < 5 \<and> callsOf parts' \<noteq> []
        \<and> dispatchAll (recording gw') inherited (callsOf parts') (w', L') = (promises, (w1, L1))
        \<and> promiseAll promises = Inr rs'"
  then have d: "dispatchAll (recording gw') inherited (callsOf parts') (w', L') = (promises, (w1, L1))"
    and pa: "promiseAll promises = Inr rs'" by simp_all
  from promiseAll_pointwise[OF pa]
    dispatchAll_pointwise[of "recording gw'" inherited "callsOf parts'" "(w', L')"] d
  show "length rs' = length (callsOf parts')" by simp
next
  assume h: "iteration < 5 \<and> callsOf parts' \<noteq> []
        \<and> dispatchAll (recording gw') inherited (callsOf parts') (w', L') = (promises, (w1, L1))
        \<and> promiseAll promises = Inr rs'"
  then have d: "dispatchAll (recording gw') inherited (callsOf parts') (w', L') = (promises, (w1, L1))"
    and pa: "promiseAll promises = Inr rs'" by simp_all
  from promiseAll_pointwise[OF pa]
    dispatchAll_pointwise[of "recording gw'" inherited "callsOf parts'" "(w', L')"] d
  show "\<forall>k < length (callsOf parts').
            fst (dispatch (recording gw') inherited (callsOf parts' ! k)
                   (startStates (recording gw') inherited (callsOf parts') (w', L') ! k))
              = Inr (rs' ! k)" by simp
next
  assume h: "iteration < 5 \<and> callsOf parts' \<noteq> []
        \<and> dispatchAll (recording gw') inherited (callsOf parts') (w', L') = (promises, (w1, L1))
        \<and> promiseAll promises = Inr rs'"
  then have it: "iteration < 5" and ne: "callsOf parts' \<noteq> []"
    and d: "dispatchAll (recording gw') inherited (callsOf parts') (w', L') = (promises, (w1, L1))"
    and pa: "promiseAll promises = Inr rs'" by simp_all
  let ?req = "(orchestratorModel, history @ [FunctionResponses rs'])"
  obtain r wn where g: "gw' w1 orchestratorModel (history @ [FunctionResponses rs']) = (r, wn)"
    by (cases "gw' w1 orchestratorModel (history @ [FunctionResponses rs'])")
  show "\<exists>rest.
            snd (snd (orchestratorLoop (recording gw') inherited history parts' iteration (w', L')))
              = L1 @ ?req # rest"
  proof (cases r)
    case (Inl e)
    with g have "chatSend (recording gw') orchestratorModel history (FunctionResponses rs') (w1, L1)
        = (Inl e, history, (wn, L1 @ [?req]))"
      by (simp add: chatSend_def recording_def)
    with it ne d pa show ?thesis
      by (subst orchestratorLoop.simps) (simp add: Let_def)
  next
    case (Inr ps)
    let ?h = "history @ [FunctionResponses rs', ModelParts ps]"
    from g Inr have "chatSend (recording gw') orchestratorModel history (FunctionResponses rs') (w1, L1)
        = (Inr ps, ?h, (wn, L1 @ [?req]))"
      by (simp add: chatSend_def recording_def)
    with it ne d pa have l:
      "orchestratorLoop (recording gw') inherited history parts' iteration (w', L')
         = orchestratorLoop (recording gw') inherited ?h ps (iteration + 1) (wn, L1 @ [?req])"
      by (subst orchestratorLoop.simps) (simp add: Let_def)
    from orchestratorLoop_log_grows[OF recording_appends, of gw' inherited ?h ps "iteration + 1"
        "(wn, L1 @ [?req])"]
    obtain more where
      "snd (snd (orchestratorLoop (recording gw') inherited ?h ps (iteration + 1) (wn, L1 @ [?req])))
         = (L1 @ [?req]) @ more" by auto
    with l show ?thesis by simp
  qed
qed

text \<open>
  Three requests, the second for an unregistered tool, and two worker calls: the message
  the gateway receives next holds the outcomes in request order.
\<close>

theorem batch_results_in_request_order_witness:
  "snd (snd (snd (loop (recording scripted) (echoAgent 5)
        [toolCallPart ''echo'' (Num 1), toolCallPart ''nope'' Null, toolCallPart ''echo'' (Num 3)]
        ([Inr [textPart ''ok'']], []))))
     = [(geminiModel (echoAgent 5),
         [FunctionResponses
            [FunctionResponse ''echo'' (Num 1),
             FunctionResponse ''nope''
               (Obj [(''error'', Str ''Unknown tool: \"nope\". Available: echo''),
                     (''tool'', Str ''nope'')]),
             FunctionResponse ''echo'' (Num 3)]])]
   \<and> map snd (snd (snd (orchestratorLoop (recording scripted) [] []
        [workerCallPart ''math_agent'' ''2+2'', workerCallPart ''code_agent'' ''hello'']
        0 ([Inr [textPart ''4''], Inr [textPart ''print''], Inr [textPart ''done'']], []))))
     = [[UserText ''2+2''], [UserText ''hello''],
        [FunctionResponses
           [FunctionResponse ''call_worker''
              (Obj [(''worker'', Str ''math_agent''), (''result'', Str ''4'')]),
            FunctionResponse ''call_worker''
              (Obj [(''worker'', Str ''code_agent''), (''result'', Str ''print'')])]]]"
proof -
  let ?a = "echoAgent 5"
  let ?ps = "[toolCallPart ''echo'' (Num 1), toolCallPart ''nope'' Null, toolCallPart ''echo'' (Num 3)]"
  let ?w = "[Inr [textPart ''ok'']] :: (exn + part list) list"
  let ?qs = "[workerCallPart ''math_agent'' ''2+2'', workerCallPart ''code_agent'' ''hello'']"
  let ?v = "[Inr [textPart ''4''], Inr [textPart ''print''], Inr [textPart ''done'']]
              :: (exn + part list) list"
  let ?rs' = "[FunctionResponse ''call_worker''
              (Obj [(''worker'', Str ''math_agent''), (''result'', Str ''4'')]),
            FunctionResponse ''call_worker''
              (Obj [(''worker'', Str ''code_agent''), (''result'', Str ''print'')])]"
  let ?D = "dispatchAll (recording scripted) [] (callsOf ?qs) (?v, [])"
  have r1: "snd (snd (snd (loop (recording scripted) ?a ?ps (?w, []))))
     = [(geminiModel ?a,
         [FunctionResponses
            [FunctionResponse ''echo'' (Num 1),
             FunctionResponse ''nope''
               (Obj [(''error'', Str ''Unknown tool: \"nope\". Available: echo''),
                     (''tool'', Str ''nope'')]),
             FunctionResponse ''echo'' (Num 3)]])]"
    by (simp add: stub_defs recording_def)
  have r2: "map snd (snd (snd (orchestratorLoop (recording scripted) [] [] ?qs 0 (?v, []))))
     = [[UserText ''2+2''], [UserText ''hello''], [FunctionResponses ?rs']]"
    by (simp add: stub_defs recording_def workerCallPart_def dispatch_def workers_def
        callWorker_def generateContent_def)
  have h1: "stepCount ?a < maxSteps ?a \<and> callsOf ?ps \<noteq> []
      \<and> (\<forall>p \<in> set (callsOf ?ps). \<exists>r. callPart ?a p = Inr r)"
    by (simp add: stub_defs)
  have h2: "(0::int) < 5 \<and> callsOf ?qs \<noteq> []
        \<and> ?D = (fst ?D, (fst (snd ?D), snd (snd ?D)))
        \<and> promiseAll (fst ?D) = Inr ?rs'"
    by (simp add: stub_defs recording_def workerCallPart_def dispatch_def workers_def
        callWorker_def generateContent_def)
  note t = batch_results_in_request_order[where a = ?a and parts = ?ps and gw = scripted
      and w = ?w and L = "[]" and iteration = 0 and parts' = ?qs and gw' = scripted
      and inherited = "[]" and w' = ?v and L' = "[]" and promises = "fst ?D"
      and ?w1.0 = "fst (snd ?D)" and ?L1.0 = "snd (snd ?D)" and rs' = ?rs' and history = "[]"]
  note e1 = t[THEN conjunct1, THEN mp, OF h1]
  note e2 = t[THEN conjunct2, THEN mp, OF h2]
  show ?thesis by (insert e1 e2) (rule conjI[OF r1 r2])
qed

text \<open>
  C6, as amended. \<^verbatim>\<open>run()\<close> treats a gateway response that it inspects as final
  exactly when it contains zero tool-invocation requests. Whenever \<^verbatim>\<open>run()\<close> returns a
  result, the conversation has grown by the turns of this run; every gateway response of
  the run but the last contains at least one tool request (the loop continued past it, and
  its text was not returned). On success the last response has zero tool requests, the
  result's text is the concatenation of its text fragments, and \<open>steps\<close> counts the
  responses. On failure the last response was received when the step budget was already
  used up and was not inspected: \<open>steps\<close> is one less than the number of responses and is
  not below \<open>maxSteps\<close>.
\<close>

theorem run_final_exactly_when_no_calls:
  assumes "run gw stringify a userMessage context w = (Inr res, a', w')"
  shows "\<exists>new. chat a' = chat a @ new \<and> modelTurns new \<noteq> [] \<and>
       (\<forall>q \<in> set (butlast (modelTurns new)). callsOf q \<noteq> []) \<and>
       (case res of
          Success t n \<Rightarrow> callsOf (last (modelTurns new)) = []
             \<and> t = textOf (last (modelTurns new)) \<and> n = int (length (modelTurns new))
        | Failure e n \<Rightarrow> n = int (length (modelTurns new)) - 1 \<and> \<not> n < maxSteps a)"
proof -
  let ?a0 = "a\<lparr>stepCount := 0\<rparr>"
  let ?msg = "UserText (fullMessage stringify userMessage context)"
  obtain y a1 w1 where s: "sendMessage gw ?a0 ?msg w = (y, a1, w1)"
    by (cases "sendMessage gw ?a0 ?msg w")
  with assms obtain parts where y: "y = Inr parts"
    by (cases y) (simp_all add: run_def Let_def)
  from assms s y have l: "loop gw a1 parts w1 = (Inr res, a', w')"
    by (simp add: run_def Let_def)
  from sendMessage_Inr[OF s[unfolded y]] have a1: "a1 = ?a0\<lparr>chat := chat ?a0 @ [?msg, ModelParts parts]\<rparr>" .
  from loop_trace[OF l] obtain new' where n: "chat a' = chat a1 @ new'"
    "\<forall>q \<in> set (butlast (parts # modelTurns new')). callsOf q \<noteq> []"
    "(case res of
        Success t n \<Rightarrow> callsOf (last (parts # modelTurns new')) = []
           \<and> t = textOf (last (parts # modelTurns new'))
           \<and> n = stepCount a1 + int (length (parts # modelTurns new'))
      | Failure e n \<Rightarrow> n = stepCount a1 + int (length (parts # modelTurns new')) - 1
           \<and> \<not> n < maxSteps a1)"
    by blast
  let ?new = "[?msg, ModelParts parts] @ new'"
  have mt: "modelTurns ?new = parts # modelTurns new'" by simp
  have c: "chat a' = chat a @ ?new" using n(1) a1 by simp
  have sc: "stepCount a1 = 0" "maxSteps a1 = maxSteps a" using a1 by simp_all
  have r: "(case res of
          Success t n \<Rightarrow> callsOf (last (modelTurns ?new)) = []
             \<and> t = textOf (last (modelTurns ?new)) \<and> n = int (length (modelTurns ?new))
        | Failure e n \<Rightarrow> n = int (length (modelTurns ?new)) - 1 \<and> \<not> n < maxSteps a)"
    using n(3) sc unfolding mt by (cases res) simp_all
  have b: "\<forall>q \<in> set (butlast (modelTurns ?new)). callsOf q \<noteq> []"
    using n(2) unfolding mt .
  have ne: "modelTurns ?new \<noteq> []" unfolding mt by simp
  from c ne b r show ?thesis by blast
qed

theorem run_final_exactly_when_no_calls_witness:
  "\<exists>new. chat (fst (snd (run scripted (\<lambda>v. []) (echoAgent 5) ''go'' Null
              [Inr [toolCallPart ''echo'' (Num 1)], Inr [textPart ''Done'']])))
            = chat (echoAgent 5) @ new
        \<and> length (modelTurns new) = 2
        \<and> callsOf (hd (modelTurns new)) \<noteq> []
        \<and> callsOf (last (modelTurns new)) = []
        \<and> textOf (last (modelTurns new)) = ''Done''"
proof -
  let ?R = "run scripted (\<lambda>v. []) (echoAgent 5) ''go'' Null
              [Inr [toolCallPart ''echo'' (Num 1)], Inr [textPart ''Done'']]"
  have "fst ?R = Inr (Success ''Done'' 2)" by (simp add: stub_defs)
  then have "?R = (Inr (Success ''Done'' 2), fst (snd ?R), snd (snd ?R))"
    by (metis prod.collapse)
  from run_final_exactly_when_no_calls[OF this] obtain new where
    n: "chat (fst (snd ?R)) = chat (echoAgent 5) @ new" "modelTurns new \<noteq> []"
      "\<forall>q \<in> set (butlast (modelTurns new)). callsOf q \<noteq> []"
      "callsOf (last (modelTurns new)) = []" "''Done'' = textOf (last (modelTurns new))"
      "2 = int (length (modelTurns new))"
    by auto
  from n(6) have len: "length (modelTurns new) = 2" by simp
  then obtain p q where pq: "modelTurns new = [p, q]"
    by (cases "modelTurns new"; cases "tl (modelTurns new)") auto
  with n(3) have "callsOf (hd (modelTurns new)) \<noteq> []" by simp
  with n len show ?thesis by auto
qed

text \<open>
  C6 as stated fails at the budget boundary: with \<open>maxSteps = 1\<close>, a first response that
  requests a tool and a second response that is pure text, the second response is received
  (it is the last turn of the conversation) and has zero tool requests, yet \<^verbatim>\<open>run()\<close>
  returns the max-steps failure.
\<close>

theorem run_drops_answer_at_budget:
  "callsOf [textPart ''Done''] = [] \<and>
   fst (run scripted (\<lambda>v. []) (echoAgent 1) ''go'' Null
          [Inr [toolCallPart ''echo'' (Num 1)], Inr [textPart ''Done'']])
     = Inr (Failure ''Max steps (1) reached'' 1) \<and>
   last (chat (fst (snd (run scripted (\<lambda>v. []) (echoAgent 1) ''go'' Null
          [Inr [toolCallPart ''echo'' (Num 1)], Inr [textPart ''Done'']]))))
     = ModelParts [textPart ''Done'']"
  by (simp add: stub_defs)

text \<open>
  C7. Calling \<^verbatim>\<open>reset()\<close> and then \<^verbatim>\<open>run(x)\<close>: the first request the gateway
  receives carries the agent's unchanged model configuration (system prompt and tool
  declarations) and a conversation holding only the new user turn, whatever the prior
  history was; \<^verbatim>\<open>reset()\<close> leaves the tool functions and the model configuration as
  they were and forgets any earlier conversation.
\<close>

theorem reset_then_run_fresh:
  "(\<exists>rest. snd (snd (snd (run (recording gw) stringify (reset a) x context (w, []))))
             = (geminiModel a, [UserText (fullMessage stringify x context)]) # rest)
   \<and> fullMessage stringify x Null = x
   \<and> toolFns (reset a) = toolFns a
   \<and> geminiModel (reset a) = geminiModel a
   \<and> reset (a\<lparr>chat := h\<rparr>) = reset a"
proof -
  let ?a0 = "(reset a)\<lparr>stepCount := 0\<rparr>"
  let ?msg = "UserText (fullMessage stringify x context)"
  let ?req = "(geminiModel a, [?msg])"
  obtain r w1 where g: "gw w (geminiModel a) [?msg] = (r, w1)"
    by (cases "gw w (geminiModel a) [?msg]")
  have first: "\<exists>rest. snd (snd (snd (run (recording gw) stringify (reset a) x context (w, []))))
             = ?req # rest"
  proof (cases r)
    case (Inl e)
    with g show ?thesis
      by (simp add: run_def sendMessage_def chatSend_def recording_def reset_def startChat_def Let_def)
  next
    case (Inr parts)
    let ?a1 = "?a0\<lparr>chat := [?msg, ModelParts parts]\<rparr>"
    from g Inr have s: "sendMessage (recording gw) ?a0 ?msg (w, []) = (Inr parts, ?a1, (w1, [?req]))"
      by (simp add: sendMessage_def chatSend_def recording_def reset_def startChat_def)
    from loop_log_grows[OF recording_appends, of gw ?a1 parts "(w1, [?req])"]
    obtain more where "snd (snd (snd (loop (recording gw) ?a1 parts (w1, [?req])))) = [?req] @ more"
      by auto
    with s show ?thesis by (simp add: run_def Let_def)
  qed
  show ?thesis using first by (simp add: reset_def fullMessage_def)
qed

text \<open>
  A first session with one tool call leaves four turns in the conversation; after
  \<^verbatim>\<open>reset()\<close>, \<^verbatim>\<open>run("x")\<close> sends exactly one request, holding the single user turn.
\<close>

theorem reset_then_run_fresh_witness:
  "length (chat (fst (snd (run scripted (\<lambda>v. []) (echoAgent 5) ''old question'' Null
      [Inr [toolCallPart ''echo'' (Num 1)], Inr [textPart ''old answer'']])))) = 4
   \<and> snd (snd (snd (run (recording scripted) (\<lambda>v. [])
        (reset (fst (snd (run scripted (\<lambda>v. []) (echoAgent 5) ''old question'' Null
           [Inr [toolCallPart ''echo'' (Num 1)], Inr [textPart ''old answer'']]))))
        ''x'' Null ([Inr [textPart ''fresh'']], []))))
     = [(geminiModel (echoAgent 5), [UserText ''x''])]"
proof -
  let ?prior = "fst (snd (run scripted (\<lambda>v. []) (echoAgent 5) ''old question'' Null
      [Inr [toolCallPart ''echo'' (Num 1)], Inr [textPart ''old answer'']]))"
  have p: "?prior = (echoAgent 5)\<lparr>stepCount := 2, totalCalls := 1,
      chat := [UserText ''old question'', ModelParts [toolCallPart ''echo'' (Num 1)],
               FunctionResponses [FunctionResponse ''echo'' (Num 1)],
               ModelParts [textPart ''old answer'']]\<rparr>"
    by (simp add: stub_defs)
  have l: "length (chat ?prior) = 4" by (simp add: p)
  have g: "geminiModel ?prior = geminiModel (echoAgent 5)" by (simp add: p)
  have r: "snd (snd (snd (run (recording scripted) (\<lambda>v. []) (reset ?prior) ''x'' Null
             ([Inr [textPart ''fresh'']], []))))
           = [(geminiModel ?prior, [UserText ''x''])]"
    unfolding p by (simp add: stub_defs reset_def recording_def)
  from reset_then_run_fresh[of scripted "\<lambda>v. []" ?prior "''x''" Null "[Inr [textPart ''fresh'']]"] l g r
  show ?thesis by simp
qed

text \<open>
  C8. With a gateway that answers every request, for every requested round count the
  debate returns a result with exactly that many rounds (none when the count is below 1).
  The gateway's transcript of the run shows the wiring: the requests made are, in order,
  those of \<open>debateRequests\<close> for the returned rounds, followed by the judge's, and the
  texts of the gateway's answers are, in the same order, the FOR and AGAINST texts of the
  returned rounds (unaltered) followed by the verdict. So in the first round both sides
  get their opening prompt, built from topic and context only, and in every later round
  each side's prompt is built from the text the gateway gave the other side in the
  previous round, which it contains verbatim; the judge's prompt contains all round texts
  one after the other in round order.
\<close>

theorem debate_runs_all_rounds:
  assumes "\<forall>w m h. \<exists>parts. fst (gw w m h) = Inr parts"
  shows "\<exists>res w' log.
      runDebate (transcribing gw) topic context (Some rounds) (w, []) = (Inr res, (w', log))
      \<and> requestsOf log =
          debateRequests topic context None (resultRounds res) @
            [(llmModel judgeSystem, [UserText (judgePrompt topic (resultRounds res) context)])]
      \<and> answersOf log = map Inr (roundSegments (resultRounds res) @ [verdict res])
      \<and> length (resultRounds res) = nat rounds
      \<and> resultTopic res = topic
      \<and> occurInOrder (roundSegments (resultRounds res))
            (judgePrompt topic (resultRounds res) context)
      \<and> (\<forall>x. includes (proPrompt topic context (Some x)) x
              \<and> includes (conPrompt topic context (Some x)) x)
      \<and> proPrompt topic context None =
           ''Make the strongest possible case FOR: \"'' @ topic @ ''\"\<newline>Context: '' @ context
      \<and> conPrompt topic context None =
           ''Make the strongest possible case AGAINST: \"'' @ topic @ ''\"\<newline>Context: '' @ context"
proof -
  from debateLoop_transcript[OF assms refl, of 1 None topic "context" rounds "[]" w "[]"]
  obtain rs w1 L1 where l: "debateLoop (transcribing gw) topic context rounds 1 [] None None (w, [])
      = (Inr rs, (w1, L1))"
    and lr: "requestsOf L1 = debateRequests topic context None rs"
    and la: "answersOf L1 = map Inr (roundSegments rs)"
    and ll: "length rs = nat rounds"
    by auto
  let ?jreq = "(llmModel judgeSystem, [UserText (judgePrompt topic rs context)])"
  from llm_transcribing[OF assms, of judgeSystem "judgePrompt topic rs context" w1 L1]
  obtain jp w2 where j: "judgeAgent (transcribing gw) topic rs context (w1, L1)
      = (Inr (textOf jp),
         (w2, L1 @ [(llmModel judgeSystem, [UserText (judgePrompt topic rs context)], Inr jp)]))"
    by (auto simp: judgeAgent_def)
  let ?res = "\<lparr> resultTopic = topic, resultRounds = rs, verdict = textOf jp \<rparr>"
  let ?log = "L1 @ [(llmModel judgeSystem, [UserText (judgePrompt topic rs context)], Inr jp)]"
  have r: "runDebate (transcribing gw) topic context (Some rounds) (w, []) = (Inr ?res, (w2, ?log))"
    using l j by (simp add: runDebate_def)
  have q: "requestsOf ?log = debateRequests topic context None (resultRounds ?res) @
            [(llmModel judgeSystem, [UserText (judgePrompt topic (resultRounds ?res) context)])]"
    unfolding requestsOf_append lr by (simp add: requestsOf_def)
  have an: "answersOf ?log = map Inr (roundSegments (resultRounds ?res) @ [verdict ?res])"
    unfolding answersOf_append la by (simp add: answersOf_def)
  have o: "occurInOrder (roundSegments (resultRounds ?res))
            (judgePrompt topic (resultRounds ?res) context)"
    unfolding judgePrompt_def transcript_def
    using occurInOrder_prefix[OF occurInOrder_roundTexts,
        where pre = "''Topic: \"'' @ topic @ ''\"\<newline>Context: '' @ context @
              ''\<newline>\<newline>Debate Transcript:\<newline>''"]
    by (simp del: occurInOrder.simps)
  have inc: "\<forall>x. includes (proPrompt topic context (Some x)) x
              \<and> includes (conPrompt topic context (Some x)) x"
    by (simp add: includes_proPrompt includes_conPrompt)
  have op: "proPrompt topic context None =
           ''Make the strongest possible case FOR: \"'' @ topic @ ''\"\<newline>Context: '' @ context"
    "conPrompt topic context None =
           ''Make the strongest possible case AGAINST: \"'' @ topic @ ''\"\<newline>Context: '' @ context"
    by (simp_all add: proPrompt_def conPrompt_def)
  have len: "length (resultRounds ?res) = nat rounds" "resultTopic ?res = topic"
    using ll by simp_all
  from r q an len o inc op show ?thesis
    by (intro exI[of _ ?res] exI[of _ w2] exI[of _ ?log] conjI)
qed

text \<open>
  Two rounds against the numbering gateway: five requests, each wired to the answers
  given before it.
\<close>

theorem debate_runs_all_rounds_witness:
  "runDebate (transcribing numbered) ''Tabs'' ''style guide'' (Some 2) (0, []) =
     (Inr \<lparr> resultTopic = ''Tabs'',
            resultRounds = [\<lparr> pro = ''reply 0'', con = ''reply 1'' \<rparr>,
                            \<lparr> pro = ''reply 2'', con = ''reply 3'' \<rparr>],
            verdict = ''reply 4'' \<rparr>,
      (5,
       [(llmModel proSystem,
           [UserText ''Make the strongest possible case FOR: \"Tabs\"\<newline>Context: style guide''],
           Inr [textPart ''reply 0'']),
        (llmModel conSystem,
           [UserText ''Make the strongest possible case AGAINST: \"Tabs\"\<newline>Context: style guide''],
           Inr [textPart ''reply 1'']),
        (llmModel proSystem,
           [UserText ''Topic: \"Tabs\"\<newline>Context: style guide\<newline>\<newline>Your opponent said:\<newline>\"reply 1\"\<newline>\<newline>Counter their argument AND strengthen your position.''],
           Inr [textPart ''reply 2'']),
        (llmModel conSystem,
           [UserText ''Topic: \"Tabs\"\<newline>Context: style guide\<newline>\<newline>Your opponent said:\<newline>\"reply 0\"\<newline>\<newline>Counter their argument AND strengthen your position.''],
           Inr [textPart ''reply 3'']),
        (llmModel judgeSystem,
           [UserText ''Topic: \"Tabs\"\<newline>Context: style guide\<newline>\<newline>Debate Transcript:\<newline>=== Round 1 ===\<newline>FOR: reply 0\<newline>\<newline>AGAINST: reply 1\<newline>\<newline>=== Round 2 ===\<newline>FOR: reply 2\<newline>\<newline>AGAINST: reply 3''],
           Inr [textPart ''reply 4''])]))"
proof -
  have h: "\<forall>w m h. \<exists>parts. fst (numbered w m h) = Inr parts" by (simp add: numbered_def)
  have r: "runDebate (transcribing numbered) ''Tabs'' ''style guide'' (Some 2) (0, []) =
     (Inr \<lparr> resultTopic = ''Tabs'',
            resultRounds = [\<lparr> pro = ''reply 0'', con = ''reply 1'' \<rparr>,
                            \<lparr> pro = ''reply 2'', con = ''reply 3'' \<rparr>],
            verdict = ''reply 4'' \<rparr>,
      (5,
       [(llmModel proSystem,
           [UserText ''Make the strongest possible case FOR: \"Tabs\"\<newline>Context: style guide''],
           Inr [textPart ''reply 0'']),
        (llmModel conSystem,
           [UserText ''Make the strongest possible case AGAINST: \"Tabs\"\<newline>Context: style guide''],
           Inr [textPart ''reply 1'']),
        (llmModel proSystem,
           [UserText ''Topic: \"Tabs\"\<newline>Context: style guide\<newline>\<newline>Your opponent said:\<newline>\"reply 1\"\<newline>\<newline>Counter their argument AND strengthen your position.''],
           Inr [textPart ''reply 2'']),
        (llmModel conSystem,
           [UserText ''Topic: \"Tabs\"\<newline>Context: style guide\<newline>\<newline>Your opponent said:\<newline>\"reply 0\"\<newline>\<newline>Counter their argument AND strengthen your position.''],
           Inr [textPart ''reply 3'']),
        (llmModel judgeSystem,
           [UserText ''Topic: \"Tabs\"\<newline>Context: style guide\<newline>\<newline>Debate Transcript:\<newline>=== Round 1 ===\<newline>FOR: reply 0\<newline>\<newline>AGAINST: reply 1\<newline>\<newline>=== Round 2 ===\<newline>FOR: reply 2\<newline>\<newline>AGAINST: reply 3''],
           Inr [textPart ''reply 4''])]))"
    by (simp add: runDebate_def debateLoop.simps proAgent_def conAgent_def judgeAgent_def llm_def
        generateContent_def transcribing_def numbered_def llmModel_def proPrompt_def conPrompt_def
        rebuttalPrompt_def judgePrompt_def transcript_def textOf_def textPart_def Let_def)
  have e: "\<exists>res w' log.
      runDebate (transcribing numbered) ''Tabs'' ''style guide'' (Some 2) (0, [])
        = (Inr res, (w', log))
      \<and> requestsOf log =
          debateRequests ''Tabs'' ''style guide'' None (resultRounds res) @
            [(llmModel judgeSystem,
              [UserText (judgePrompt ''Tabs'' (resultRounds res) ''style guide'')])]
      \<and> answersOf log = map Inr (roundSegments (resultRounds res) @ [verdict res])
      \<and> length (resultRounds res) = nat 2"
    using debate_runs_all_rounds[OF h, of "''Tabs''" "''style guide''" 2 0] by blast
  show ?thesis by (insert e) (rule r)
qed


text \<open>
  C9, as amended. If \<open>maxSteps \<ge> 1\<close> and the very first gateway response to
  \<^verbatim>\<open>run()\<close> contains zero tool-invocation requests, the result is the success result
  with the text of that response and \<open>steps = 1\<close>.
\<close>

theorem run_first_response_final:
  assumes "1 \<le> maxSteps a"
    and "gw w (geminiModel a) (chat a @ [UserText (fullMessage stringify userMessage context)])
           = (Inr parts, w')"
    and "callsOf parts = []"
  shows "fst (run gw stringify a userMessage context w) = Inr (Success (textOf parts) 1)"
  using assms by (simp add: run_def sendMessage_def chatSend_def Let_def)

theorem run_first_response_final_witness:
  "fst (run (answering [textPart ''Hello'']) (\<lambda>v. []) (echoAgent 20) ''hi'' Null ())
     = Inr (Success ''Hello'' 1)"
proof -
  have h1: "1 \<le> maxSteps (echoAgent 20)" by (simp add: echoAgent_def newBaseAgent_def)
  have h2: "answering [textPart ''Hello''] () (geminiModel (echoAgent 20))
              (chat (echoAgent 20) @ [UserText (fullMessage (\<lambda>v. []) ''hi'' Null)])
            = (Inr [textPart ''Hello''], ())"
    by (simp add: answering_def)
  have h3: "callsOf [textPart ''Hello''] = []" by (simp add: callsOf_def textPart_def)
  from run_first_response_final[of "echoAgent 20" "answering [textPart ''Hello'']" "()"
      "\<lambda>v. []" "''hi''" Null "[textPart ''Hello'']" "()", OF h1 h2 h3]
  show ?thesis by (simp add: textOf_def textPart_def)
qed

text \<open>
  C9 as stated fails for \<open>maxSteps = 0\<close>: the loop body never runs, the tool-free first
  response is not inspected, and the result is the failure result with \<open>steps = 0\<close>.
\<close>

theorem run_first_response_final_zero_budget:
  "callsOf [textPart ''Hello''] = [] \<and>
   fst (run (answering [textPart ''Hello'']) (\<lambda>v. []) (echoAgent 0) ''hi'' Null ())
     = Inr (Failure ''Max steps (0) reached'' 0)"
  by (simp add: run_def sendMessage_def chatSend_def answering_def echoAgent_def
      newBaseAgent_def startChat_def callsOf_def textPart_def showInt_def Let_def)

text \<open>
  C10. \<^verbatim>\<open>reset()\<close> clears only the conversation and the per-run step counter;
  \<open>totalCalls\<close> is not reset, and \<^verbatim>\<open>getStats().totalCalls\<close> never decreases over any
  sequence of \<^verbatim>\<open>run()\<close> and \<^verbatim>\<open>reset()\<close> calls on the agent.
\<close>

theorem totalCalls_accumulates:
  "reset a = a\<lparr>chat := startChat, stepCount := 0\<rparr>
   \<and> totalCalls (reset a) = totalCalls a
   \<and> statsTotalCalls (getStats a)
        \<le> statsTotalCalls (getStats (fst (lifetime gw stringify ops a w)))"
  using lifetime_totalCalls[of a gw stringify ops w] by (simp add: reset_def getStats_def)

text \<open>
  A lifetime with two sessions of one tool call each, separated by a reset: the counter
  goes from 0 to 2.
\<close>

theorem totalCalls_accumulates_witness:
  "statsTotalCalls (getStats (echoAgent 5)) = 0 \<and>
   statsTotalCalls (getStats (fst (lifetime scripted (\<lambda>v. [])
      [Run ''one'' Null, Reset, Run ''two'' Null] (echoAgent 5)
      [Inr [toolCallPart ''echo'' (Num 1)], Inr [textPart ''Done''],
       Inr [toolCallPart ''echo'' (Num 2)], Inr [textPart ''Done again'']]))) = 2"
proof -
  have "statsTotalCalls (getStats (fst (lifetime scripted (\<lambda>v. [])
      [Run ''one'' Null, Reset, Run ''two'' Null] (echoAgent 5)
      [Inr [toolCallPart ''echo'' (Num 1)], Inr [textPart ''Done''],
       Inr [toolCallPart ''echo'' (Num 2)], Inr [textPart ''Done again'']]))) = 2"
    by (simp add: stub_defs reset_def getStats_def)
  moreover have "statsTotalCalls (getStats (echoAgent 5)) = 0"
    by (simp add: stub_defs getStats_def)
  ultimately show ?thesis
    using totalCalls_accumulates[of "echoAgent 5" scripted "\<lambda>v. []"
      "[Run ''one'' Null, Reset, Run ''two'' Null]"
      "[Inr [toolCallPart ''echo'' (Num 1)], Inr [textPart ''Done''],
       Inr [toolCallPart ''echo'' (Num 2)], Inr [textPart ''Done again'']]"]
    by simp
qed

end
